theory Spec2Isabelle
  imports Complex_Main "HOL-Library.Word"
begin

section \<open>Byte strings, errors and file objects\<close>

text \<open>
  A Python 2 \<^verbatim>\<open>str\<close> is a byte string: a list of 8-bit characters.
\<close>

type_synonym bytes = string

text \<open>
  Every exception the modelled code can raise is a value. \<open>CorruptFrameError\<close> and
  \<open>GapError\<close> are the error kinds the specification names for the frame codec and the
  packet assembler; the others are the Python exceptions of \<^verbatim>\<open>oggvorbis.py\<close> itself.
\<close>

datatype error =
    EOFError
  | CorruptFrameError
  | GapError
  | IOError
  | IndexError
  | StructError
  | TypeError
  | AssertionError
  | ZeroDivisionError
  | OggVorbisNoHeaderError

text \<open>
  What \<^verbatim>\<open>except IOError\<close> catches: \<^verbatim>\<open>IOError\<close> and its subclasses.
  \<^verbatim>\<open>OggVorbisNoHeaderError\<close> derives from \<^verbatim>\<open>error(IOError)\<close> in the source; the frame
  codec's own error is taken to be an \<^verbatim>\<open>IOError\<close> as well (the load path turns a failed
  scan into a no-header error in the specification).
\<close>

fun is_IOError :: "error \<Rightarrow> bool" where
  "is_IOError IOError = True"
| "is_IOError CorruptFrameError = True"
| "is_IOError OggVorbisNoHeaderError = True"
| "is_IOError _ = False"

text \<open>A file object: its content and the position of its cursor.\<close>

record fileobj =
  data :: bytes
  pos :: nat

definition startswith :: "bytes \<Rightarrow> bytes \<Rightarrow> bool" where
  "startswith s pre = (take (length pre) s = pre)"

text \<open>Little-endian integers of a fixed number of bytes.\<close>

fun le_bytes :: "nat \<Rightarrow> nat \<Rightarrow> bytes" where
  "le_bytes 0 n = []"
| "le_bytes (Suc k) n = char_of (n mod 256) # le_bytes k (n div 256)"

fun le_nat :: "bytes \<Rightarrow> nat" where
  "le_nat [] = 0"
| "le_nat (c # cs) = of_char c + 256 * le_nat cs"

text \<open>
  Modelled from the spec: \<^verbatim>\<open>cdata.uint_le\<close> is not among the source files; the
  specification reads these fields as 4-byte little-endian unsigned integers. Any other
  length is an error of the unpacking.
\<close>

definition uint_le :: "bytes \<Rightarrow> error + nat" where
  "uint_le s = (if length s = 4 then Inr (le_nat s) else Inl StructError)"

section \<open>The frame codec\<close>

text \<open>
  Modelled from the spec: the class \<^verbatim>\<open>OggPage\<close> (module \<^verbatim>\<open>mutagen.ogg\<close>) is not
  among the source files. Its attributes are the ones \<^verbatim>\<open>oggvorbis.py\<close> reads and
  writes (\<^verbatim>\<open>packets\<close>, \<^verbatim>\<open>complete\<close>, \<^verbatim>\<open>first\<close>, \<^verbatim>\<open>last\<close>, \<^verbatim>\<open>serial\<close>,
  \<^verbatim>\<open>sequence\<close>, \<^verbatim>\<open>position\<close>, \<^verbatim>\<open>offset\<close>, \<^verbatim>\<open>size\<close>), with the binary layout of the
  specification's frame table. \<open>complete\<close> says that the last packet of the frame is
  closed by a segment shorter than 255 bytes; the three flags are the bits of the flags
  byte. Serial and sequence number are 4-byte fields, so sequence numbers wrap around
  at \<open>2 ^ 32\<close>. A frame that was not read from a file has no offset.
\<close>

record OggPage =
  version :: nat
  position :: int
  serial :: "32 word"
  sequence :: "32 word"
  continued :: bool
  first :: bool
  last_flag :: bool
  packets :: "bytes list"
  complete :: bool
  offset :: "nat option"

text \<open>The segments of one packet: full segments, then a short one that closes it.\<close>

definition packet_lacing :: "bytes \<Rightarrow> nat list" where
  "packet_lacing p = replicate (length p div 255) 255 @ [length p mod 255]"

text \<open>
  The segment table of a frame. A frame whose last packet continues on the next frame
  ends with a full segment: the closing zero-length segment is left out.
\<close>

definition lacing_table :: "OggPage \<Rightarrow> nat list" where
  "lacing_table p =
     (let t = concat (map packet_lacing (packets p))
      in if \<not> complete p \<and> t \<noteq> [] \<and> last t = 0 then butlast t else t)"

definition flags_byte :: "OggPage \<Rightarrow> nat" where
  "flags_byte p =
     (if continued p then 1 else 0) + (if first p then 2 else 0) + (if last_flag p then 4 else 0)"

text \<open>The 27 bytes of the fixed header, with the given checksum field.\<close>

definition header_bytes :: "OggPage \<Rightarrow> nat \<Rightarrow> bytes" where
  "header_bytes p c =
     ''OggS'' @ [char_of (version p), char_of (flags_byte p)]
       @ le_bytes 8 (nat (position p mod 2 ^ 64))
       @ le_bytes 4 (unat (serial p)) @ le_bytes 4 (unat (sequence p))
       @ le_bytes 4 c @ [char_of (length (lacing_table p))]"

definition body_bytes :: "OggPage \<Rightarrow> bytes" where
  "body_bytes p = map char_of (lacing_table p) @ concat (packets p)"

text \<open>
  \<^verbatim>\<open>OggPage.write\<close>: the checksum is computed over the whole frame with the checksum
  field zeroed, and filled in. The checksum function is not given by the specification:
  it is the parameter \<open>crc\<close> of everything that reads or writes a frame.
\<close>

definition OggPage_write :: "(bytes \<Rightarrow> 32 word) \<Rightarrow> OggPage \<Rightarrow> bytes" where
  "OggPage_write crc p =
     header_bytes p (unat (crc (header_bytes p 0 @ body_bytes p))) @ body_bytes p"

text \<open>\<^verbatim>\<open>OggPage.size\<close>: the encoded size of the frame.\<close>

definition page_size :: "OggPage \<Rightarrow> nat" where
  "page_size p = 27 + length (lacing_table p) + length (concat (packets p))"

text \<open>
  Reading the segment table: a segment shorter than 255 closes a packet; segments left
  open at the end of the table make a last packet that is not complete. The result is
  the packets' lengths and the \<open>complete\<close> attribute.
\<close>

fun lacings_of :: "nat list \<Rightarrow> nat \<Rightarrow> nat list \<times> bool" where
  "lacings_of [] tot = (if 0 < tot then ([tot], False) else ([], True))"
| "lacings_of (c # cs) tot =
     (if c < 255 then (case lacings_of cs 0 of (ls, cmpl) \<Rightarrow> ((tot + c) # ls, cmpl))
      else lacings_of cs (tot + c))"

fun split_packets :: "nat list \<Rightarrow> bytes \<Rightarrow> bytes list" where
  "split_packets [] payload = []"
| "split_packets (n # ns) payload = take n payload # split_packets ns (drop n payload)"

text \<open>
  Decoding the frame at the start of a byte string: the frame (without its offset) and
  its encoded size. Nothing left to read is the end of the file; a short header, table
  or payload, a wrong magic signature and a wrong checksum are a corrupt frame.
\<close>

definition decode_page :: "(bytes \<Rightarrow> 32 word) \<Rightarrow> bytes \<Rightarrow> error + (OggPage \<times> nat)" where
  "decode_page crc d =
     (let header = take 27 d
      in if header = [] then Inl EOFError
         else if length header < 27 then Inl CorruptFrameError
         else if take 4 header \<noteq> ''OggS'' then Inl CorruptFrameError
         else
           let nseg = of_char (header ! 26); table = take nseg (drop 27 d)
           in if length table \<noteq> nseg then Inl CorruptFrameError
              else
                let lc = lacings_of (map of_char table) 0;
                    tot = sum_list (fst lc);
                    payload = take tot (drop (27 + nseg) d)
                in if length payload \<noteq> tot then Inl CorruptFrameError
                   else if unat (crc (take 22 header @ le_bytes 4 0 @ drop 26 header
                                       @ table @ payload))
                           \<noteq> le_nat (take 4 (drop 22 header))
                   then Inl CorruptFrameError
                   else Inr (\<lparr> version = of_char (header ! 4),
                               position = int (le_nat (take 8 (drop 6 header))),
                               serial = of_nat (le_nat (take 4 (drop 14 header))),
                               sequence = of_nat (le_nat (take 4 (drop 18 header))),
                               continued = odd (of_char (header ! 5) :: nat),
                               first = odd (of_char (header ! 5) div 2 :: nat),
                               last_flag = odd (of_char (header ! 5) div 4 :: nat),
                               packets = split_packets (fst lc) payload,
                               complete = snd lc,
                               offset = None \<rparr>,
                             27 + nseg + tot))"

text \<open>
  \<^verbatim>\<open>OggPage(fileobj)\<close>: decode the frame at the cursor, record the cursor as its
  offset and move the cursor past the frame.
\<close>

definition OggPage_read :: "(bytes \<Rightarrow> 32 word) \<Rightarrow> fileobj \<Rightarrow> error + (OggPage \<times> fileobj)" where
  "OggPage_read crc fileobj =
     (case decode_page crc (drop (pos fileobj) (data fileobj)) of
        Inl e \<Rightarrow> Inl e
      | Inr (page, n) \<Rightarrow>
          Inr (page\<lparr>offset := Some (pos fileobj)\<rparr>, fileobj\<lparr>pos := pos fileobj + n\<rparr>))"

lemma decode_page_size:
  assumes "decode_page crc d = Inr (page, n)"
  shows "27 \<le> n \<and> n \<le> length d"
proof -
  define nseg :: nat where "nseg = of_char (take 27 d ! 26)"
  define tot where "tot = sum_list (fst (lacings_of (map of_char (take nseg (drop 27 d))) 0))"
  from assms have n: "n = 27 + nseg + tot"
    and t: "length (take nseg (drop 27 d)) = nseg"
    and p: "length (take tot (drop (27 + nseg) d)) = tot"
    and h: "\<not> length (take 27 d) < 27"
    unfolding decode_page_def Let_def nseg_def tot_def
    by (simp_all split: if_splits)
  from h have "27 \<le> length d" by simp
  with t have "27 + nseg \<le> length d" by simp
  moreover from p have "tot \<le> length d - (27 + nseg)" by simp
  ultimately show ?thesis using n by simp
qed

lemma OggPage_read_advances:
  assumes "OggPage_read crc fileobj = Inr (page, fileobj')"
  shows "pos fileobj < pos fileobj' \<and> pos fileobj' \<le> length (data fileobj)
         \<and> data fileobj' = data fileobj"
  using assms decode_page_size [of crc "drop (pos fileobj) (data fileobj)"]
  by (fastforce simp: OggPage_read_def split: sum.splits)

section \<open>Stream information\<close>

record OggVorbisInfo =
  info_channels :: nat
  info_sample_rate :: nat
  info_serial :: "32 word"
  info_bitrate :: nat

text \<open>
  The \<^verbatim>\<open>while\<close> loop of \<^verbatim>\<open>OggVorbisInfo.__init__\<close>, from the first frame read:
  frames are read until one has a first packet that starts with the identification
  marker. \<^verbatim>\<open>page.packets[0]\<close> of a frame without packets raises.
\<close>

function find_id_page ::
  "(bytes \<Rightarrow> 32 word) \<Rightarrow> fileobj \<Rightarrow> error + (OggPage \<times> fileobj)" where
  "find_id_page crc fileobj =
     (case OggPage_read crc fileobj of
        Inl e \<Rightarrow> Inl e
      | Inr (page, fileobj') \<Rightarrow>
          (case packets page of
             [] \<Rightarrow> Inl IndexError
           | p0 # _ \<Rightarrow>
               if startswith p0 (CHR 0x01 # ''vorbis'') then Inr (page, fileobj')
               else find_id_page crc fileobj'))"
  by pat_completeness auto
termination
  by (relation "measure (\<lambda>(crc, f). length (data f) - pos f)")
     (auto dest!: OggPage_read_advances)

text \<open>The bitrate of lines 49 to 61, from the three bounds of the identification packet.\<close>

definition bitrate_of :: "nat \<Rightarrow> nat \<Rightarrow> nat \<Rightarrow> nat" where
  "bitrate_of max_bitrate nominal_bitrate min_bitrate =
     (if nominal_bitrate = 0 then (max_bitrate + min_bitrate) div 2
      else if max_bitrate \<noteq> 0 then min max_bitrate nominal_bitrate
      else if min_bitrate \<noteq> 0 then max min_bitrate nominal_bitrate
      else nominal_bitrate)"

text \<open>
  The fields of the identification packet (lines 45 to 61). \<^verbatim>\<open>packet[11]\<close> raises on a
  packet of at most 11 bytes; a slice that is cut short makes \<^verbatim>\<open>uint_le\<close> fail.
\<close>

definition info_of_packet :: "32 word \<Rightarrow> bytes \<Rightarrow> error + OggVorbisInfo" where
  "info_of_packet ser p0 =
     (if length p0 \<le> 11 then Inl IndexError
      else
        (case uint_le (take 4 (drop 12 p0)) of Inl e \<Rightarrow> Inl e | Inr sample_rate \<Rightarrow>
        (case uint_le (take 4 (drop 16 p0)) of Inl e \<Rightarrow> Inl e | Inr max_bitrate \<Rightarrow>
        (case uint_le (take 4 (drop 20 p0)) of Inl e \<Rightarrow> Inl e | Inr nominal_bitrate \<Rightarrow>
        (case uint_le (take 4 (drop 24 p0)) of Inl e \<Rightarrow> Inl e | Inr min_bitrate \<Rightarrow>
          Inr \<lparr> info_channels = of_char (p0 ! 11),
                info_sample_rate = sample_rate,
                info_serial = ser,
                info_bitrate = bitrate_of max_bitrate nominal_bitrate min_bitrate \<rparr>)))))"

text \<open>\<^verbatim>\<open>OggVorbisInfo.__init__\<close>.\<close>

definition OggVorbisInfo_init ::
  "(bytes \<Rightarrow> 32 word) \<Rightarrow> fileobj \<Rightarrow> error + (OggVorbisInfo \<times> fileobj)" where
  "OggVorbisInfo_init crc fileobj =
     (case find_id_page crc fileobj of
        Inl e \<Rightarrow> Inl e
      | Inr (page, fileobj') \<Rightarrow>
          if \<not> first page then Inl IOError
          else
            (case packets page of
               [] \<Rightarrow> Inl IndexError
             | p0 # _ \<Rightarrow>
                 (case info_of_packet (serial page) p0 of
                    Inl e \<Rightarrow> Inl e
                  | Inr info \<Rightarrow> Inr (info, fileobj'))))"

section \<open>Packets from frames\<close>

text \<open>
  Modelled from the spec: \<^verbatim>\<open>OggPage.to_packets\<close> is not among the source files. One
  buffer of pending bytes is carried through the frames: a packet of a frame is added to
  it, and closes it unless it is the last packet of a frame that is not complete.
  \<open>add_packets\<close> is the step for one frame: the packets it closes, and what stays
  pending.
\<close>

fun add_packets :: "bytes \<Rightarrow> bytes list \<Rightarrow> bool \<Rightarrow> bytes list \<times> bytes" where
  "add_packets pending [] c = ([], pending)"
| "add_packets pending [q] c = (if c then ([pending @ q], []) else ([], pending @ q))"
| "add_packets pending (q # qs) c =
     (case add_packets [] qs c of (finished, pending') \<Rightarrow> ((pending @ q) # finished, pending'))"

text \<open>
  The frames' sequence numbers must be contiguous, or the reassembly fails. The result
  is the packets that were closed.
\<close>

fun to_packets_from :: "bytes \<Rightarrow> 32 word \<Rightarrow> OggPage list \<Rightarrow> error + bytes list" where
  "to_packets_from pending sq [] = Inr []"
| "to_packets_from pending sq (page # pages) =
     (if sequence page \<noteq> sq then Inl GapError
      else
        (case add_packets pending (packets page) (complete page) of
           (finished, pending') \<Rightarrow>
             (case to_packets_from pending' (sq + 1) pages of
                Inl e \<Rightarrow> Inl e
              | Inr rest \<Rightarrow> Inr (finished @ rest))))"

definition to_packets :: "OggPage list \<Rightarrow> error + bytes list" where
  "to_packets pages =
     (case pages of [] \<Rightarrow> Inr [] | page # _ \<Rightarrow> to_packets_from [] (sequence page) pages)"

section \<open>Reading the comment packet\<close>

text \<open>
  The loop of \<^verbatim>\<open>OggVCommentDict.__init__\<close>: frames of the stream are collected
  until one is complete or holds more than one packet.
\<close>

function read_comment_pages ::
  "(bytes \<Rightarrow> 32 word) \<Rightarrow> 32 word \<Rightarrow> OggPage list \<Rightarrow> fileobj
     \<Rightarrow> error + (OggPage list \<times> fileobj)" where
  "read_comment_pages crc ser pages fileobj =
     (case OggPage_read crc fileobj of
        Inl e \<Rightarrow> Inl e
      | Inr (page, fileobj') \<Rightarrow>
          if serial page = ser then
            (if complete page \<or> 1 < length (packets page)
             then Inr (pages @ [page], fileobj')
             else read_comment_pages crc ser (pages @ [page]) fileobj')
          else read_comment_pages crc ser pages fileobj')"
  by pat_completeness auto
termination
  by (relation "measure (\<lambda>(crc, ser, pages, f). length (data f) - pos f)")
     (auto dest!: OggPage_read_advances)

text \<open>
  \<^verbatim>\<open>OggVCommentDict.__init__\<close>: the comment data is the first packet without its
  7-byte marker. Parsing the data into comments is the work of \<^verbatim>\<open>VCommentDict\<close>,
  outside this module: the tags are the data.
\<close>

definition OggVCommentDict_init ::
  "(bytes \<Rightarrow> 32 word) \<Rightarrow> fileobj \<Rightarrow> OggVorbisInfo \<Rightarrow> error + (bytes \<times> fileobj)" where
  "OggVCommentDict_init crc fileobj info =
     (case read_comment_pages crc (info_serial info) [] fileobj of
        Inl e \<Rightarrow> Inl e
      | Inr (pages, fileobj') \<Rightarrow>
          (case to_packets pages of
             Inl e \<Rightarrow> Inl e
           | Inr [] \<Rightarrow> Inl IndexError
           | Inr (packet # _) \<Rightarrow> Inr (drop 7 packet, fileobj')))"

section \<open>Loading a file\<close>

text \<open>
  \<^verbatim>\<open>data.rindex(s)\<close>: the greatest index at which \<open>s\<close> occurs in the data, if any.
\<close>

fun rindex_down :: "bytes \<Rightarrow> bytes \<Rightarrow> nat \<Rightarrow> nat option" where
  "rindex_down d s 0 = (if startswith d s then Some 0 else None)"
| "rindex_down d s (Suc i) =
     (if startswith (drop (Suc i) d) s then Some (Suc i) else rindex_down d s i)"

definition rindex :: "bytes \<Rightarrow> bytes \<Rightarrow> nat option" where
  "rindex d s = (if length d < length s then None else rindex_down d s (length d - length s))"

text \<open>
  What \<^verbatim>\<open>fileobj.read()\<close> returns after \<^verbatim>\<open>fileobj.seek(-256*256, 2)\<close>, or after
  \<^verbatim>\<open>fileobj.seek(0)\<close> when the file is shorter than that and the first seek raises.
\<close>

definition tail_data :: "bytes \<Rightarrow> bytes" where
  "tail_data d = (if length d < 256 * 256 then d else drop (length d - 256 * 256) d)"

text \<open>The inner loop of the slow path: frames are read until one is of the stream.\<close>

function skip_foreign ::
  "(bytes \<Rightarrow> 32 word) \<Rightarrow> 32 word \<Rightarrow> OggPage \<Rightarrow> fileobj \<Rightarrow> error + (OggPage \<times> fileobj)" where
  "skip_foreign crc ser page fileobj =
     (if serial page \<noteq> ser then
        (case OggPage_read crc fileobj of
           Inl e \<Rightarrow> Inl e
         | Inr (page', fileobj') \<Rightarrow> skip_foreign crc ser page' fileobj')
      else Inr (page, fileobj))"
  by pat_completeness auto
termination
  by (relation "measure (\<lambda>(crc, ser, page, f). length (data f) - pos f)")
     (auto dest!: OggPage_read_advances)

text \<open>
  The outer loop of the slow path (lines 177 to 181), which may run forever: not
  returning is the value \<open>None\<close>.
\<close>

partial_function (option) slow_scan ::
  "(bytes \<Rightarrow> 32 word) \<Rightarrow> 32 word \<Rightarrow> OggPage \<Rightarrow> fileobj \<Rightarrow> int \<Rightarrow> (error + int) option" where
  "slow_scan crc ser page fileobj samples =
     (if last_flag page then Some (Inr samples)
      else
        (case skip_foreign crc ser page fileobj of
           Inl e \<Rightarrow> Some (Inl e)
         | Inr (page', fileobj') \<Rightarrow>
             slow_scan crc ser page' fileobj'
               (if serial page' = ser then max samples (position page') else samples)))"

text \<open>Lines 159 to 181: the number of samples, by the last frame or by the slow path.\<close>

definition find_samples ::
  "(bytes \<Rightarrow> 32 word) \<Rightarrow> bytes \<Rightarrow> OggVorbisInfo \<Rightarrow> (error + int) option" where
  "find_samples crc d info =
     (case rindex (tail_data d) ''OggS'' of
        None \<Rightarrow> Some (Inl OggVorbisNoHeaderError)
      | Some index \<Rightarrow>
          (case OggPage_read crc \<lparr>data = drop index (tail_data d), pos = 0\<rparr> of
             Inl e \<Rightarrow> Some (Inl e)
           | Inr (last_page, _) \<Rightarrow>
               if serial last_page = info_serial info then Some (Inr (position last_page))
               else
                 (case OggPage_read crc \<lparr>data = d, pos = 0\<rparr> of
                    Inl e \<Rightarrow> Some (Inl e)
                  | Inr (page, fileobj) \<Rightarrow>
                      slow_scan crc (info_serial info) page fileobj (position page))))"

text \<open>
  \<^verbatim>\<open>samples / float(self.info.sample_rate)\<close>: the quotient (the rounding of the
  floating-point division is left out), or the error of a division by zero.
\<close>

definition length_of :: "int \<Rightarrow> nat \<Rightarrow> error + real" where
  "length_of samples sample_rate =
     (if sample_rate = 0 then Inl ZeroDivisionError
      else Inr (real_of_int samples / real sample_rate))"

text \<open>The body of the inner \<^verbatim>\<open>try\<close> of \<^verbatim>\<open>OggVorbis.load\<close>, on the file's content.\<close>

definition load_body ::
  "(bytes \<Rightarrow> 32 word) \<Rightarrow> bytes \<Rightarrow> (error + (OggVorbisInfo \<times> bytes \<times> real)) option" where
  "load_body crc d =
     (case OggVorbisInfo_init crc \<lparr>data = d, pos = 0\<rparr> of
        Inl e \<Rightarrow> Some (Inl e)
      | Inr (info, fileobj) \<Rightarrow>
          (case OggVCommentDict_init crc fileobj info of
             Inl e \<Rightarrow> Some (Inl e)
           | Inr (tags, fileobj') \<Rightarrow>
               (case find_samples crc d info of
                  None \<Rightarrow> None
                | Some (Inl e) \<Rightarrow> Some (Inl e)
                | Some (Inr samples) \<Rightarrow>
                    (case length_of samples (info_sample_rate info) of
                       Inl e \<Rightarrow> Some (Inl e)
                     | Inr len \<Rightarrow> Some (Inr (info, tags, len))))))"

text \<open>
  \<^verbatim>\<open>OggVorbis.load\<close>: an \<^verbatim>\<open>IOError\<close> of the body is raised again as
  \<^verbatim>\<open>OggVorbisNoHeaderError\<close>; any other exception passes. The result is the stream
  information, the tags and the length in seconds.
\<close>

definition load ::
  "(bytes \<Rightarrow> 32 word) \<Rightarrow> bytes \<Rightarrow> (error + (OggVorbisInfo \<times> bytes \<times> real)) option" where
  "load crc d =
     (case load_body crc d of
        None \<Rightarrow> None
      | Some (Inl e) \<Rightarrow> Some (Inl (if is_IOError e then OggVorbisNoHeaderError else e))
      | Some (Inr r) \<Rightarrow> Some (Inr r))"

section \<open>Frames from packets\<close>

text \<open>
  Modelled from the spec: \<^verbatim>\<open>OggPage.from_packets\<close> is not among the source files.
  A packet is cut into segments of 255 bytes and a last, shorter segment (of length 0
  when the packet's length is a multiple of 255) that closes it.
\<close>

fun segments_n :: "nat \<Rightarrow> bytes \<Rightarrow> (bytes \<times> bool) list" where
  "segments_n 0 p = [(p, True)]"
| "segments_n (Suc k) p = (take 255 p, False) # segments_n k (drop 255 p)"

definition segments_of :: "bytes \<Rightarrow> (bytes \<times> bool) list" where
  "segments_of p = segments_n (length p div 255) p"

text \<open>A frame takes segments until it holds 255 of them, the most a frame can hold.\<close>

function frames_of_segments :: "(bytes \<times> bool) list \<Rightarrow> (bytes \<times> bool) list list" where
  "frames_of_segments segs =
     (if segs = [] then [] else take 255 segs # frames_of_segments (drop 255 segs))"
  by pat_completeness auto
termination
  by (relation "measure length") auto

text \<open>The packets of a frame, from its segments.\<close>

fun group_segments :: "bytes \<Rightarrow> (bytes \<times> bool) list \<Rightarrow> bytes list" where
  "group_segments acc [] = (if acc = [] then [] else [acc])"
| "group_segments acc ((b, closing) # segs) =
     (if closing then (acc @ b) # group_segments [] segs
      else group_segments (acc @ b) segs)"

text \<open>
  The frames are numbered from the start sequence number. A frame is continued when the
  frame before it ends in an open packet. The flags is-first and is-last are not set,
  and neither is the serial number: the caller sets them.
\<close>

fun pages_from :: "32 word \<Rightarrow> bool \<Rightarrow> (bytes \<times> bool) list list \<Rightarrow> OggPage list" where
  "pages_from sq cont [] = []"
| "pages_from sq cont (segs # rest) =
     \<lparr> version = 0, position = 0, serial = 0, sequence = sq, continued = cont,
       first = False, last_flag = False, packets = group_segments [] segs,
       complete = (segs = [] \<or> snd (last segs)), offset = None \<rparr>
     # pages_from (sq + 1) (\<not> (segs = [] \<or> snd (last segs))) rest"

text \<open>
  A frame break at every packet boundary is a policy the caller has to ask for
  (\<open>force_break\<close>); without it the segments of all packets fill the frames one after
  the other, and a frame can hold segments of several packets.
\<close>

definition from_packets_policy :: "bool \<Rightarrow> bytes list \<Rightarrow> 32 word \<Rightarrow> OggPage list" where
  "from_packets_policy force_break pkts sq =
     pages_from sq False
       (if force_break then concat (map (frames_of_segments \<circ> segments_of) pkts)
        else frames_of_segments (concat (map segments_of pkts)))"

text \<open>
  \<^verbatim>\<open>OggPage.from_packets(packets, sequence)\<close>, as \<^verbatim>\<open>_inject\<close> calls it: with the
  packets and the start sequence number only, and so without a forced break.
\<close>

definition from_packets :: "bytes list \<Rightarrow> 32 word \<Rightarrow> OggPage list" where
  "from_packets pkts sq = from_packets_policy False pkts sq"

section \<open>Editing a region of the file\<close>

text \<open>
  Modelled from the spec: \<^verbatim>\<open>Metadata._insert_space\<close> and \<^verbatim>\<open>Metadata._delete_bytes\<close>
  are not among the source files. Inserting moves the content from the offset on towards
  the end by \<open>sz\<close> bytes; the bytes of the gap are to be overwritten (here they keep
  what was there, or are 0 past the old end). Deleting moves the content after the
  deleted bytes to the offset and truncates the file.
\<close>

definition insert_space :: "bytes \<Rightarrow> nat \<Rightarrow> nat \<Rightarrow> bytes" where
  "insert_space d sz offs =
     take offs d @ take sz (drop offs d @ replicate sz (CHR 0x00)) @ drop offs d"

definition delete_bytes :: "bytes \<Rightarrow> nat \<Rightarrow> nat \<Rightarrow> bytes" where
  "delete_bytes d sz offs = take offs d @ drop (offs + sz) d"

text \<open>\<^verbatim>\<open>fileobj.write(s)\<close> at the cursor; a cursor past the end pads with zero bytes.\<close>

definition file_write :: "fileobj \<Rightarrow> bytes \<Rightarrow> fileobj" where
  "file_write fileobj s =
     \<lparr> data = take (pos fileobj) (data fileobj)
              @ replicate (pos fileobj - length (data fileobj)) (CHR 0x00)
              @ s @ drop (pos fileobj + length s) (data fileobj),
       pos = pos fileobj + length s \<rparr>"

section \<open>Renumbering\<close>

text \<open>
  Modelled from the spec: \<^verbatim>\<open>OggPage.renumber\<close> is not among the source files. The
  sequence field (bytes 18 to 21 of the frame) is overwritten and the checksum (bytes
  22 to 25) is recomputed, in place; the frame is the \<open>sz\<close> bytes at \<open>off\<close>.
\<close>

definition renumber_frame ::
  "(bytes \<Rightarrow> 32 word) \<Rightarrow> bytes \<Rightarrow> nat \<Rightarrow> nat \<Rightarrow> 32 word \<Rightarrow> bytes" where
  "renumber_frame crc d off sz number =
     (let frame = take sz (drop off d);
          zeroed = take 18 frame @ le_bytes 4 (unat number) @ le_bytes 4 0 @ drop 26 frame
      in take off d @ take 18 frame @ le_bytes 4 (unat number)
           @ le_bytes 4 (unat (crc zeroed)) @ drop 26 frame @ drop (off + sz) d)"

lemma length_le_bytes [simp]: "length (le_bytes k n) = k"
  by (induction k arbitrary: n) auto

lemma length_renumber_frame:
  assumes "26 \<le> sz" "off + sz \<le> length d"
  shows "length (renumber_frame crc d off sz number) = length d"
  using assms by (simp add: renumber_frame_def Let_def del: le_bytes.simps)

text \<open>
  Every frame from the cursor to the end of the file is read; a frame of the stream
  gets the next number, a frame of another stream is passed over. The scan ends at the
  end of the file; a frame that cannot be read ends it with an error, and the file
  stays as it is then. The result is the outcome and the file.
\<close>

function renumber ::
  "(bytes \<Rightarrow> 32 word) \<Rightarrow> fileobj \<Rightarrow> 32 word \<Rightarrow> 32 word \<Rightarrow> (error + unit) \<times> fileobj" where
  "renumber crc fileobj ser number =
     (case OggPage_read crc fileobj of
        Inl e \<Rightarrow> (if e = EOFError then (Inr (), fileobj) else (Inl e, fileobj))
      | Inr (page, fileobj') \<Rightarrow>
          if serial page \<noteq> ser then renumber crc fileobj' ser number
          else
            renumber crc
              (fileobj'\<lparr>data := renumber_frame crc (data fileobj') (pos fileobj)
                                  (pos fileobj' - pos fileobj) number\<rparr>)
              ser (number + 1))"
  by pat_completeness auto
termination
proof (relation "measure (\<lambda>(crc, f, ser, number). length (data f) - pos f)", goal_cases)
  case 1
  show ?case by simp
next
  case (2 crc fileobj ser number x page fileobj')
  then show ?case by (auto dest!: OggPage_read_advances)
next
  case (3 crc fileobj ser number x page fileobj')
  then have r: "OggPage_read crc fileobj = Inr (page, fileobj')" by simp
  from OggPage_read_advances [OF r]
  have a: "pos fileobj < pos fileobj'" "pos fileobj' \<le> length (data fileobj)"
    "data fileobj' = data fileobj" by simp_all
  from r decode_page_size [of crc "drop (pos fileobj) (data fileobj)"]
  have "27 \<le> pos fileobj' - pos fileobj"
    by (auto simp: OggPage_read_def split: sum.splits)
  then have "length (renumber_frame crc (data fileobj') (pos fileobj)
                      (pos fileobj' - pos fileobj) number) = length (data fileobj)"
    using a by (simp add: length_renumber_frame)
  then show ?case using a by simp
qed

section \<open>Writing the comment packet\<close>

text \<open>
  Lines 86 to 90 of \<^verbatim>\<open>_inject\<close>: frames are read until one has a first packet that
  starts with the comment marker.
\<close>

function find_comment_page ::
  "(bytes \<Rightarrow> 32 word) \<Rightarrow> fileobj \<Rightarrow> error + (OggPage \<times> fileobj)" where
  "find_comment_page crc fileobj =
     (case OggPage_read crc fileobj of
        Inl e \<Rightarrow> Inl e
      | Inr (page, fileobj') \<Rightarrow>
          (case packets page of
             [] \<Rightarrow> Inl IndexError
           | p0 # _ \<Rightarrow>
               if startswith p0 (CHR 0x03 # ''vorbis'') then Inr (page, fileobj')
               else find_comment_page crc fileobj'))"
  by pat_completeness auto
termination
  by (relation "measure (\<lambda>(crc, f). length (data f) - pos f)")
     (auto dest!: OggPage_read_advances)

text \<open>
  Lines 91 to 94: until the last packet of the frame read last starts with the setup
  marker, the next frame is read, and kept when it has the serial number of the first
  old frame. \<^verbatim>\<open>page.packets[-1]\<close> of a frame without packets raises.
\<close>

function collect_old_pages ::
  "(bytes \<Rightarrow> 32 word) \<Rightarrow> OggPage list \<Rightarrow> OggPage \<Rightarrow> fileobj
     \<Rightarrow> error + (OggPage list \<times> fileobj)" where
  "collect_old_pages crc old_pages page fileobj =
     (if packets page = [] then Inl IndexError
      else if startswith (last (packets page)) (CHR 0x05 # ''vorbis'')
      then Inr (old_pages, fileobj)
      else
        (case OggPage_read crc fileobj of
           Inl e \<Rightarrow> Inl e
         | Inr (page', fileobj') \<Rightarrow>
             (case old_pages of
                [] \<Rightarrow> Inl IndexError
              | old0 # _ \<Rightarrow>
                  if serial page' = serial old0
                  then collect_old_pages crc (old_pages @ [page']) page' fileobj'
                  else collect_old_pages crc old_pages page' fileobj')))"
  by pat_completeness auto
termination
  by (relation "measure (\<lambda>(crc, old_pages, page, f). length (data f) - pos f)")
     (auto dest!: OggPage_read_advances)

text \<open>Lines 82 to 94: the old frames, from the given offset.\<close>

definition find_old_pages ::
  "(bytes \<Rightarrow> 32 word) \<Rightarrow> bytes \<Rightarrow> nat \<Rightarrow> error + (OggPage list \<times> fileobj)" where
  "find_old_pages crc d offs =
     (case find_comment_page crc \<lparr>data = d, pos = offs\<rparr> of
        Inl e \<Rightarrow> Inl e
      | Inr (page, fileobj) \<Rightarrow> collect_old_pages crc [page] page fileobj)"

text \<open>
  Lines 99 to 109: the new frames. \<open>comment\<close> is what \<^verbatim>\<open>self.write()\<close> returns, the
  serialized comments. The \<^verbatim>\<open>assert\<close> on the number of packets fails before anything
  is written.
\<close>

definition new_pages_of :: "bytes \<Rightarrow> OggPage list \<Rightarrow> error + OggPage list" where
  "new_pages_of comment old_pages =
     (case to_packets old_pages of
        Inl e \<Rightarrow> Inl e
      | Inr pkts \<Rightarrow>
          if length pkts \<noteq> 2 then Inl AssertionError
          else
            (case old_pages of
               [] \<Rightarrow> Inl IndexError
             | old0 # _ \<Rightarrow>
                 (let pkts' = pkts[0 := CHR 0x03 # ''vorbis'' @ comment];
                      new_pages = map (\<lambda>page. page\<lparr>serial := serial old0\<rparr>)
                                    (from_packets pkts' (sequence old0))
                  in if new_pages = [] then Inl IndexError
                     else Inr (butlast new_pages
                               @ [(last new_pages)\<lparr>complete := complete (last old_pages)\<rparr>]))))"

text \<open>
  Lines 124 to 127: the old frames are deleted, the last one first, each at its offset
  moved by \<open>delta\<close>. A frame without an offset cannot be used as a position.
\<close>

fun delete_old_pages :: "bytes \<Rightarrow> nat \<Rightarrow> OggPage list \<Rightarrow> error + bytes" where
  "delete_old_pages d delta [] = Inr d"
| "delete_old_pages d delta (old_page # rest) =
     (case offset old_page of
        None \<Rightarrow> Inl TypeError
      | Some off \<Rightarrow> delete_old_pages (delete_bytes d (page_size old_page) (off + delta)) delta rest)"

text \<open>
  Lines 110 to 135: the new frames are written at the offset of the first old frame,
  the old frames are deleted, and the frames after the new data are renumbered when the
  number of frames has changed. The result is the outcome and the content of the file.
\<close>

definition splice ::
  "(bytes \<Rightarrow> 32 word) \<Rightarrow> bytes \<Rightarrow> OggPage list \<Rightarrow> OggPage list \<Rightarrow> (error + unit) \<times> bytes" where
  "splice crc d old_pages new_pages =
     (let new_data = concat (map (OggPage_write crc) new_pages);
          delta = length new_data
      in case old_pages of
           [] \<Rightarrow> (Inl IndexError, d)
         | old0 # _ \<Rightarrow>
             (case offset old0 of
                None \<Rightarrow> (Inl TypeError, d)
              | Some off0 \<Rightarrow>
                  (let d1 = insert_space d delta off0;
                       f2 = file_write \<lparr>data = d1, pos = off0\<rparr> new_data;
                       new_data_end = pos f2
                   in case delete_old_pages (data f2) delta (rev old_pages) of
                        Inl e \<Rightarrow> (Inl e, data f2)
                      | Inr d3 \<Rightarrow>
                          if length old_pages \<noteq> length new_pages then
                            (case renumber crc \<lparr>data = d3, pos = new_data_end\<rparr>
                                    (serial (last new_pages)) (sequence (last new_pages) + 1) of
                               (r, f4) \<Rightarrow> (r, data f4))
                          else (Inr (), d3))))"

text \<open>
  \<^verbatim>\<open>OggVCommentDict._inject\<close>, on the content of the file. An error before line 112
  leaves the file as it was.
\<close>

definition inject ::
  "(bytes \<Rightarrow> 32 word) \<Rightarrow> bytes \<Rightarrow> bytes \<Rightarrow> nat \<Rightarrow> (error + unit) \<times> bytes" where
  "inject crc comment d offs =
     (case find_old_pages crc d offs of
        Inl e \<Rightarrow> (Inl e, d)
      | Inr (old_pages, fileobj) \<Rightarrow>
          (case new_pages_of comment old_pages of
             Inl e \<Rightarrow> (Inl e, d)
           | Inr new_pages \<Rightarrow> splice crc d old_pages new_pages))"

text \<open>
  The equations of the loops are unfolded by hand, one round at a time.
\<close>

declare find_id_page.simps [simp del]
declare read_comment_pages.simps [simp del]
declare skip_foreign.simps [simp del]
declare frames_of_segments.simps [simp del]
declare renumber.simps [simp del]
declare find_comment_page.simps [simp del]
declare collect_old_pages.simps [simp del]
declare slow_scan.simps [code]

section \<open>The file after writing the comment packet\<close>

text \<open>
  The frames of a stretch of the file as \<^verbatim>\<open>OggPage(fileobj)\<close> reads them one after the
  other, from the offset \<open>n\<close>: each frame with its offset.
\<close>

fun place :: "nat \<Rightarrow> OggPage list \<Rightarrow> OggPage list" where
  "place n [] = []"
| "place n (p # ps) = p\<lparr>offset := Some n\<rparr> # place (n + page_size p) ps"

text \<open>
  What the specification says of \<^verbatim>\<open>renumber\<close>, on a list of frames: a frame of the
  stream gets the next number, a frame of another stream is left as it is.
\<close>

fun renumbered :: "32 word \<Rightarrow> 32 word \<Rightarrow> OggPage list \<Rightarrow> OggPage list" where
  "renumbered ser n [] = []"
| "renumbered ser n (p # ps) =
     (if serial p \<noteq> ser then p # renumbered ser n ps
      else p\<lparr>sequence := n\<rparr> # renumbered ser (n + 1) ps)"

text \<open>
  The condition of the loop of lines 91 to 94 along a list of frames: every frame has a
  packet, and the last frame of the list is the first one whose last packet starts with
  the setup marker.
\<close>

fun ends_at_setup :: "OggPage list \<Rightarrow> bool" where
  "ends_at_setup [] = False"
| "ends_at_setup [p] =
     (packets p \<noteq> [] \<and> startswith (last (packets p)) (CHR 0x05 # ''vorbis''))"
| "ends_at_setup (p # q # qs) =
     (packets p \<noteq> [] \<and> \<not> startswith (last (packets p)) (CHR 0x05 # ''vorbis'')
      \<and> ends_at_setup (q # qs))"

text \<open>The \<open>k\<close> sequence numbers from \<open>sq\<close> on.\<close>

fun count_from :: "32 word \<Rightarrow> nat \<Rightarrow> 32 word list" where
  "count_from sq 0 = []"
| "count_from sq (Suc k) = sq # count_from (sq + 1) k"

text \<open>
  The frames of a file after \<^verbatim>\<open>_inject\<close>, for a file of the frames \<open>a\<close>, the first old
  frame \<open>h\<close>, the frames \<open>u\<close> up to the one with the setup marker, and the frames
  \<open>b\<close>: the new frames take the place of the old ones, which are the frames of
  \<open>h # u\<close> with the serial of \<open>h\<close>; the frames after them are renumbered when the
  number of frames has changed (lines 131 to 135).
\<close>

definition after_inject ::
  "OggPage list \<Rightarrow> OggPage \<Rightarrow> OggPage list \<Rightarrow> OggPage list \<Rightarrow> OggPage list \<Rightarrow> OggPage list" where
  "after_inject a h u b news =
     a @ news @
       (if length (filter (\<lambda>q. serial q = serial h) (h # u)) \<noteq> length news
        then renumbered (serial h) (sequence (last news) + 1)
               (filter (\<lambda>q. serial q \<noteq> serial h) u @ b)
        else filter (\<lambda>q. serial q \<noteq> serial h) u @ b)"

section \<open>Well-formed files\<close>

text \<open>
  A frame that the codec writes and reads back unchanged: its fields fit their width,
  its segment table has at most 255 entries, and a frame that is not complete ends in
  a packet made of full segments.
\<close>

definition valid_page :: "OggPage \<Rightarrow> bool" where
  "valid_page p =
     (version p < 256 \<and> 0 \<le> position p \<and> position p < 2 ^ 64
      \<and> length (lacing_table p) \<le> 255
      \<and> (complete p \<or> (packets p \<noteq> [] \<and> last (packets p) \<noteq> []
                           \<and> length (last (packets p)) mod 255 = 0)))"

text \<open>The file that consists of the given frames.\<close>

definition bytes_of :: "(bytes \<Rightarrow> 32 word) \<Rightarrow> OggPage list \<Rightarrow> bytes" where
  "bytes_of crc ps = concat (map (OggPage_write crc) ps)"

text \<open>The file of the frames \<open>a @ b\<close> with the cursor after the frames \<open>a\<close>.\<close>

definition cursor_at :: "(bytes \<Rightarrow> 32 word) \<Rightarrow> OggPage list \<Rightarrow> OggPage list \<Rightarrow> fileobj" where
  "cursor_at crc a b = \<lparr>data = bytes_of crc (a @ b), pos = length (bytes_of crc a)\<rparr>"

text \<open>A checksum for the closed examples: the sum of the bytes.\<close>

definition bytesum :: "bytes \<Rightarrow> 32 word" where
  "bytesum bs = of_nat (sum_list (map of_char bs))"

text \<open>Whether the sequence numbers are contiguous: each one more than the one before.\<close>

fun contiguous :: "32 word list \<Rightarrow> bool" where
  "contiguous [] = True"
| "contiguous [x] = True"
| "contiguous (x # y # zs) = (y = x + 1 \<and> contiguous (y # zs))"

section \<open>Example frames\<close>

text \<open>Frames for the closed examples: version 0, not continued, complete.\<close>

definition mk_page :: "32 word \<Rightarrow> 32 word \<Rightarrow> bool \<Rightarrow> bool \<Rightarrow> int \<Rightarrow> bytes list \<Rightarrow> OggPage" where
  "mk_page ser sq fs ls ps pk =
     \<lparr> version = 0, position = ps, serial = ser, sequence = sq, continued = False,
       first = fs, last_flag = ls, packets = pk, complete = True, offset = None \<rparr>"

definition id_packet :: bytes where
  "id_packet = CHR 0x01 # ''vorbis'' @ le_bytes 4 0 @ [CHR 0x02] @ le_bytes 4 44100
                 @ le_bytes 4 0 @ le_bytes 4 128000 @ le_bytes 4 0 @ [CHR 0x01]"

text \<open>An identification packet: 2 channels, 44100 Hz, nominal bitrate 128000.\<close>

definition foreign_page :: OggPage where
  "foreign_page = mk_page 9 0 True False 0 [''video'']"

definition late_id_page :: OggPage where
  "late_id_page = mk_page 7 0 False False 0 [id_packet]"

definition id_page :: OggPage where
  "id_page = mk_page 7 0 True False 0 [id_packet]"

text \<open>Frames for the examples of writing the comment packet.\<close>

definition comment_packet :: bytes where
  "comment_packet = CHR 0x03 # ''vorbisABC''"

definition setup_packet :: bytes where
  "setup_packet = CHR 0x05 # ''vorbisXY''"

definition three_packet_page :: OggPage where
  "three_packet_page = mk_page 7 1 False False 0 [comment_packet, ''junk'', setup_packet]"

definition last_headers_page :: OggPage where
  "last_headers_page = mk_page 7 1 False True 0 [comment_packet, setup_packet]"

definition other_id_page :: OggPage where
  "other_id_page = mk_page 9 0 True False 0 [id_packet]"

definition other_headers_page :: OggPage where
  "other_headers_page = mk_page 9 1 False False 0 [CHR 0x03 # ''vorbisOTHER'', setup_packet]"

definition headers_page :: OggPage where
  "headers_page = mk_page 7 1 False False 0 [comment_packet, setup_packet]"

definition two_stream_frames :: "OggPage list" where
  "two_stream_frames = [id_page, other_id_page, other_headers_page, headers_page]"

text \<open>A setup packet of 255 bytes, and a frame that ends in an open packet.\<close>

definition full_setup_packet :: bytes where
  "full_setup_packet = CHR 0x05 # ''vorbis'' @ replicate 248 (CHR 0x00)"

definition open_headers_page :: OggPage where
  "open_headers_page =
     (mk_page 7 1 False False 0 [comment_packet, full_setup_packet, full_setup_packet])
       \<lparr>complete := False\<rparr>"

text \<open>Example files for the duration: one stream, two streams, and a tail without a frame.\<close>

definition audio_page :: OggPage where
  "audio_page = mk_page 7 2 False True 88200 [''au'']"

definition foreign_last_page :: OggPage where
  "foreign_last_page = mk_page 9 1 False True 500 [''zz'']"

definition muxed_frames :: "OggPage list" where
  "muxed_frames = [id_page, headers_page, audio_page, foreign_last_page]"

definition plain_frames :: "OggPage list" where
  "plain_frames = [id_page, headers_page, audio_page]"

definition junk_tail_file :: bytes where
  "junk_tail_file = bytes_of bytesum [id_page, headers_page] @ replicate (256 * 256) (CHR 0x00)"

definition ex_info :: OggVorbisInfo where
  "ex_info = \<lparr>info_channels = 2, info_sample_rate = 44100, info_serial = 7,
               info_bitrate = 128000\<rparr>"

text \<open>
  Files for the examples of renumbering: the two header packets in two frames, and a
  stream with a gap in its sequence numbers.
\<close>

definition comment_only_page :: OggPage where
  "comment_only_page = mk_page 7 1 False False 0 [comment_packet]"

definition setup_only_page :: OggPage where
  "setup_only_page = mk_page 7 2 False False 0 [setup_packet]"

definition late_audio_page :: OggPage where
  "late_audio_page = mk_page 7 3 False True 88200 [''au'']"

definition split_frames :: "OggPage list" where
  "split_frames = [id_page, comment_only_page, setup_only_page, late_audio_page, foreign_last_page]"

definition gap_headers_page :: OggPage where
  "gap_headers_page = mk_page 7 5 False False 0 [comment_packet, setup_packet]"

section \<open>Little-endian fields\<close>

lemma le_nat_le_bytes: "le_nat (le_bytes k n) = n mod 256 ^ k"
proof (induction k arbitrary: n)
  case 0
  show ?case by simp
next
  case (Suc k)
  have "n mod 256 + 256 * (n div 256 mod 256 ^ k) = n mod (256 * 256 ^ k)"
    by (simp add: mod_mult2_eq)
  with Suc show ?case by simp
qed

lemma le_nat_unat32: "le_nat (le_bytes 4 (unat (w :: 32 word))) = unat w"
proof -
  have "unat w < 256 ^ 4" using unsigned_less [of w] by simp
  then show ?thesis by (simp only: le_nat_le_bytes mod_less)
qed

section \<open>Writing a frame and reading it back\<close>

lemma lacings_of_full: "lacings_of (replicate q 255 @ rest) t = lacings_of rest (t + 255 * q)"
  by (induction q arbitrary: t) (auto simp: algebra_simps)

lemma lacings_of_packet:
  "lacings_of (packet_lacing p @ rest) t =
     (case lacings_of rest 0 of (ls, c) \<Rightarrow> ((t + length p) # ls, c))"
proof -
  have "255 * (length p div 255) + length p mod 255 = length p" by simp
  then show ?thesis
    by (simp add: packet_lacing_def lacings_of_full add.assoc split: prod.splits)
qed

lemma lacings_of_packets:
  "lacings_of (concat (map packet_lacing ps)) 0 = (map length ps, True)"
  by (induction ps) (simp_all add: lacings_of_packet)

lemma lacings_of_open:
  assumes "q \<noteq> []" "length q mod 255 = 0"
  shows "lacings_of (concat (map packet_lacing qs) @ replicate (length q div 255) 255) 0
         = (map length qs @ [length q], False)"
proof (induction qs)
  case Nil
  from assms have "255 * (length q div 255) = length q" "0 < length q"
    by auto
  then show ?case using lacings_of_full [of "length q div 255" "[]" 0] by simp
next
  case (Cons a qs)
  then show ?case by (simp add: lacings_of_packet)
qed

lemma butlast_lacing_open:
  assumes "length q mod 255 = 0"
  shows "concat (map packet_lacing (qs @ [q])) = (concat (map packet_lacing qs) @ replicate (length q div 255) 255) @ [0]"
  using assms by (simp add: packet_lacing_def)

lemma lacing_table_open:
  assumes "\<not> complete p" "packets p = qs @ [q]" "length q mod 255 = 0"
  shows "lacing_table p = concat (map packet_lacing qs) @ replicate (length q div 255) 255"
proof -
  have "concat (map packet_lacing (packets p))
        = (concat (map packet_lacing qs) @ replicate (length q div 255) 255) @ [0]"
    using assms(2) butlast_lacing_open [OF assms(3), of qs] by simp
  then show ?thesis
    using assms(1) by (simp add: lacing_table_def del: concat_append map_append append_assoc)
qed

lemma lacing_table_decode:
  assumes "complete p \<or> (packets p \<noteq> [] \<and> last (packets p) \<noteq> []
                           \<and> length (last (packets p)) mod 255 = 0)"
  shows "lacings_of (lacing_table p) 0 = (map length (packets p), complete p)"
proof (cases "complete p")
  case True
  then show ?thesis by (simp add: lacing_table_def lacings_of_packets)
next
  case False
  with assms obtain qs q where pk: "packets p = qs @ [q]" and q: "q \<noteq> []" "length q mod 255 = 0"
    by (metis append_butlast_last_id)
  show ?thesis
    using False lacings_of_open [OF q, of qs]
    by (simp add: lacing_table_open [OF False pk q(2)] pk)
qed

lemma lacing_entries: "x \<in> set (lacing_table p) \<Longrightarrow> x < 256"
  by (auto simp: lacing_table_def packet_lacing_def Let_def split: if_splits dest!: in_set_butlastD)

lemma lacing_table_chars: "map of_char (map char_of (lacing_table p)) = lacing_table p"
  by (simp add: map_idI lacing_entries comp_def)

lemma sum_list_lengths: "sum_list (map length ps) = length (concat ps)"
  by (induction ps) auto

lemma split_packets_concat: "split_packets (map length ps) (concat ps) = ps"
  by (induction ps) auto

lemma length_header_bytes [simp]: "length (header_bytes p c) = 27"
  by (simp add: header_bytes_def)

lemma header_magic: "take 4 (header_bytes p c @ rest) = ''OggS''"
  by (simp add: header_bytes_def)

lemma header_nth:
  "(header_bytes p c) ! 4 = char_of (version p)"
  "(header_bytes p c) ! 5 = char_of (flags_byte p)"
  "(header_bytes p c) ! 26 = char_of (length (lacing_table p))"
  by (simp_all add: header_bytes_def nth_append del: le_bytes.simps)

lemma header_fields:
  "take 8 (drop 6 (header_bytes p c)) = le_bytes 8 (nat (position p mod 2 ^ 64))"
  "take 4 (drop 14 (header_bytes p c)) = le_bytes 4 (unat (serial p))"
  "take 4 (drop 18 (header_bytes p c)) = le_bytes 4 (unat (sequence p))"
  "take 4 (drop 22 (header_bytes p c)) = le_bytes 4 c"
  "take 22 (header_bytes p c) @ le_bytes 4 0 @ drop 26 (header_bytes p c) = header_bytes p 0"
  by (simp_all add: header_bytes_def del: le_bytes.simps)

lemma flags_decode:
  "odd (of_char (char_of (flags_byte p)) :: nat) = continued p"
  "odd (of_char (char_of (flags_byte p)) div 2 :: nat) = first p"
  "odd (of_char (char_of (flags_byte p)) div 4 :: nat) = last_flag p"
  by (simp_all add: flags_byte_def)

lemma position_decode:
  assumes "0 \<le> position p" "position p < 2 ^ 64"
  shows "int (le_nat (le_bytes 8 (nat (position p mod 2 ^ 64)))) = position p"
proof -
  have "nat (position p) < 256 ^ 8" using assms by (simp add: nat_less_iff)
  then show ?thesis using assms by (simp only: le_nat_le_bytes mod_less mod_pos_pos_trivial)
qed

lemma decode_write:
  assumes "valid_page p"
  shows "decode_page crc (OggPage_write crc p @ rest) = Inr (p\<lparr>offset := None\<rparr>, page_size p)"
proof -
  define c where "c = unat (crc (header_bytes p 0 @ body_bytes p))"
  define H where "H = header_bytes p c"
  define T where "T = map char_of (lacing_table p)"
  define P where "P = concat (packets p)"
  define n where "n = length (lacing_table p)"
  have d: "OggPage_write crc p @ rest = H @ T @ P @ rest"
    by (simp add: OggPage_write_def H_def T_def P_def c_def body_bytes_def)
  have lenH: "length H = 27" and lenT: "length T = n"
    by (simp_all add: H_def T_def n_def)
  have v: "valid_page p" by fact
  then have n255: "n \<le> 255" by (simp add: valid_page_def n_def)
  have take27: "take 27 (H @ T @ P @ rest) = H" using lenH by simp
  have nseg: "(of_char (H ! 26) :: nat) = n"
    using n255 by (simp add: H_def header_nth n_def)
  have tab: "take n (drop 27 (H @ T @ P @ rest)) = T" using lenH lenT by simp
  have lc: "lacings_of (map of_char T) 0 = (map length (packets p), complete p)"
    using v unfolding T_def lacing_table_chars by (simp add: lacing_table_decode valid_page_def)
  have tot: "sum_list (map length (packets p)) = length P"
    by (simp add: P_def sum_list_lengths)
  have pay: "take (length P) (drop (27 + n) (H @ T @ P @ rest)) = P" using lenH lenT by simp
  have crcin: "take 22 H @ le_bytes 4 0 @ drop 26 H @ T @ P = header_bytes p 0 @ body_bytes p"
    using header_fields(5) [of p c] by (simp add: H_def T_def P_def body_bytes_def del: le_bytes.simps)
  have crcf: "le_nat (take 4 (drop 22 H)) = c"
    by (simp add: H_def header_fields(4) c_def le_nat_unat32 del: le_bytes.simps)
  have magic: "take 4 H = ''OggS''" using header_magic [of p c "[]"] by (simp add: H_def)
  have ver: "(of_char (H ! 4) :: nat) = version p"
    using v by (simp add: H_def header_nth valid_page_def)
  have posn: "int (le_nat (take 8 (drop 6 H))) = position p"
  proof -
    from v have "0 \<le> position p" "position p < 2 ^ 64" by (simp_all add: valid_page_def)
    from position_decode [OF this] show ?thesis by (simp only: H_def header_fields(1))
  qed
  have ser: "(of_nat (le_nat (take 4 (drop 14 H))) :: 32 word) = serial p"
    by (simp add: H_def header_fields(2) le_nat_unat32 del: le_bytes.simps)
  have sq: "(of_nat (le_nat (take 4 (drop 18 H))) :: 32 word) = sequence p"
    by (simp add: H_def header_fields(3) le_nat_unat32 del: le_bytes.simps)
  have fl: "odd (of_char (H ! 5) :: nat) = continued p"
    "odd (of_char (H ! 5) div 2 :: nat) = first p"
    "odd (of_char (H ! 5) div 4 :: nat) = last_flag p"
    by (simp_all only: H_def header_nth flags_decode)
  have sz: "page_size p = 27 + n + length P" by (simp add: page_size_def n_def P_def)
  have Hne: "H \<noteq> []" using lenH by auto
  have "decode_page crc (H @ T @ P @ rest)
        = Inr (\<lparr> version = version p, position = position p, serial = serial p,
                  sequence = sequence p, continued = continued p, first = first p,
                  last_flag = last_flag p, packets = packets p, complete = complete p,
                  offset = None \<rparr>, 27 + n + length P)"
    unfolding decode_page_def Let_def take27 nseg tab lc fst_conv snd_conv tot pay crcin crcf magic
      ver posn ser sq fl
    using Hne lenH lenT by (simp add: c_def P_def split_packets_concat del: le_bytes.simps)
  then show ?thesis unfolding d sz by (cases p) simp
qed

lemma length_OggPage_write: "length (OggPage_write crc p) = page_size p"
  by (simp add: OggPage_write_def body_bytes_def page_size_def)

lemma bytes_of_simps:
  "bytes_of crc [] = []"
  "bytes_of crc (p # ps) = OggPage_write crc p @ bytes_of crc ps"
  "bytes_of crc (a @ b) = bytes_of crc a @ bytes_of crc b"
  by (simp_all add: bytes_of_def)

lemma OggPage_read_cursor:
  assumes "valid_page p"
  shows "OggPage_read crc (cursor_at crc a (p # b))
         = Inr (p\<lparr>offset := Some (length (bytes_of crc a))\<rparr>, cursor_at crc (a @ [p]) b)"
  using decode_write [OF assms, of crc "bytes_of crc b"]
  by (simp add: OggPage_read_def cursor_at_def length_OggPage_write bytes_of_simps)

lemma OggPage_read_eof: "OggPage_read crc (cursor_at crc a []) = Inl EOFError"
  by (simp add: OggPage_read_def cursor_at_def decode_page_def bytes_of_simps)

lemma cursor_at_start: "\<lparr>data = bytes_of crc ps, pos = 0\<rparr> = cursor_at crc [] ps"
  by (simp add: cursor_at_def bytes_of_simps)

section \<open>The identification scan\<close>

lemma valid_mk_page:
  assumes "0 \<le> ps" "ps < 2 ^ 64" "length (concat (map packet_lacing pk)) \<le> 255"
  shows "valid_page (mk_page ser sq fs ls ps pk)"
  using assms by (simp add: valid_page_def mk_page_def lacing_table_def)

lemma find_id_page_skips:
  assumes "\<forall>q\<in>set u. valid_page q \<and> packets q \<noteq> []
              \<and> \<not> startswith (hd (packets q)) (CHR 0x01 # ''vorbis'')"
    and "valid_page p" "packets p \<noteq> []" "startswith (hd (packets p)) (CHR 0x01 # ''vorbis'')"
  shows "find_id_page crc (cursor_at crc a (u @ p # w))
         = Inr (p\<lparr>offset := Some (length (bytes_of crc (a @ u)))\<rparr>, cursor_at crc (a @ u @ [p]) w)"
  using assms
proof (induction u arbitrary: a)
  case Nil
  then show ?case
    by (cases "packets p") (simp_all add: OggPage_read_cursor find_id_page.simps [of crc "cursor_at crc a (p # w)"])
next
  case (Cons q u)
  from Cons.prems have q: "valid_page q" "packets q \<noteq> []"
    "\<not> startswith (hd (packets q)) (CHR 0x01 # ''vorbis'')" by simp_all
  have "find_id_page crc (cursor_at crc a ((q # u) @ p # w))
        = find_id_page crc (cursor_at crc (a @ [q]) (u @ p # w))"
    using q by (cases "packets q")
      (simp_all add: OggPage_read_cursor find_id_page.simps [of crc "cursor_at crc a (q # u @ p # w)"])
  also have "\<dots> = Inr (p\<lparr>offset := Some (length (bytes_of crc ((a @ [q]) @ u)))\<rparr>,
                      cursor_at crc ((a @ [q]) @ u @ [p]) w)"
    using Cons.prems by (intro Cons.IH) simp_all
  finally show ?case by (simp add: bytes_of_simps)
qed

lemma find_id_page_marker:
  "find_id_page crc fileobj = Inr (page, fileobj')
   \<Longrightarrow> \<exists>p0 ps. packets page = p0 # ps \<and> startswith p0 (CHR 0x01 # ''vorbis'')"
proof (induction crc fileobj rule: find_id_page.induct)
  case (1 crc fileobj)
  show ?case
  proof (cases "OggPage_read crc fileobj")
    case (Inl e)
    with "1.prems" show ?thesis by (simp add: find_id_page.simps [of crc fileobj])
  next
    case (Inr r)
    obtain q f where r: "r = (q, f)" by (cases r)
    show ?thesis
    proof (cases "packets q")
      case Nil
      with "1.prems" Inr r show ?thesis by (simp add: find_id_page.simps [of crc fileobj])
    next
      case (Cons q0 qs)
      show ?thesis
      proof (cases "startswith q0 (CHR 0x01 # ''vorbis'')")
        case True
        with "1.prems" Inr r Cons show ?thesis by (auto simp: find_id_page.simps [of crc fileobj])
      next
        case False
        with "1.prems" Inr r Cons have "find_id_page crc f = Inr (page, fileobj')"
          by (simp add: find_id_page.simps [of crc fileobj])
        with "1.IH" Inr r Cons False show ?thesis by simp
      qed
    qed
  qed
qed

lemma le_bytes_numeral:
  "le_bytes (numeral k) n = char_of (n mod 256) # le_bytes (pred_numeral k) (n div 256)"
  by (simp only: numeral_eq_Suc le_bytes.simps)

lemma length_id_packet: "length id_packet = 29"
  by (simp add: id_packet_def)

lemma id_packet_marker: "startswith id_packet (CHR 0x01 # ''vorbis'')"
  by (simp add: id_packet_def startswith_def)

lemma info_of_id_packet:
  "info_of_packet ser id_packet
   = Inr \<lparr>info_channels = 2, info_sample_rate = 44100, info_serial = ser, info_bitrate = 128000\<rparr>"
  by (simp add: info_of_packet_def id_packet_def uint_le_def bitrate_of_def le_bytes_numeral)

lemma valid_examples:
  "valid_page foreign_page" "valid_page late_id_page" "valid_page id_page"
  by (simp_all add: foreign_page_def late_id_page_def id_page_def valid_mk_page
        packet_lacing_def length_id_packet)

lemma packets_examples [simp]:
  "packets (mk_page ser sq fs ls ps pk) = pk"
  "serial (mk_page ser sq fs ls ps pk) = ser"
  "sequence (mk_page ser sq fs ls ps pk) = sq"
  "first (mk_page ser sq fs ls ps pk) = fs"
  "last_flag (mk_page ser sq fs ls ps pk) = ls"
  "position (mk_page ser sq fs ls ps pk) = ps"
  "complete (mk_page ser sq fs ls ps pk) = True"
  by (simp_all add: mk_page_def)

section \<open>One round of each loop on a well-formed file\<close>

lemma find_comment_page_step:
  assumes "valid_page p"
  shows "find_comment_page crc (cursor_at crc a (p # b))
         = (case packets p of
              [] \<Rightarrow> Inl IndexError
            | p0 # _ \<Rightarrow>
                if startswith p0 (CHR 0x03 # ''vorbis'')
                then Inr (p\<lparr>offset := Some (length (bytes_of crc a))\<rparr>, cursor_at crc (a @ [p]) b)
                else find_comment_page crc (cursor_at crc (a @ [p]) b))"
  by (simp add: find_comment_page.simps [of crc "cursor_at crc a (p # b)"]
        OggPage_read_cursor [OF assms])

lemma find_comment_page_eof: "find_comment_page crc (cursor_at crc a []) = Inl EOFError"
  by (simp add: find_comment_page.simps [of crc "cursor_at crc a []"] OggPage_read_eof)

lemma collect_old_pages_step:
  assumes "valid_page p"
  shows "collect_old_pages crc old_pages page (cursor_at crc a (p # b))
         = (if packets page = [] then Inl IndexError
            else if startswith (last (packets page)) (CHR 0x05 # ''vorbis'')
            then Inr (old_pages, cursor_at crc a (p # b))
            else
              (case old_pages of
                 [] \<Rightarrow> Inl IndexError
               | old0 # _ \<Rightarrow>
                   if serial p = serial old0
                   then collect_old_pages crc
                          (old_pages @ [p\<lparr>offset := Some (length (bytes_of crc a))\<rparr>])
                          (p\<lparr>offset := Some (length (bytes_of crc a))\<rparr>) (cursor_at crc (a @ [p]) b)
                   else collect_old_pages crc old_pages
                          (p\<lparr>offset := Some (length (bytes_of crc a))\<rparr>) (cursor_at crc (a @ [p]) b)))"
  by (simp add: collect_old_pages.simps [of crc old_pages page "cursor_at crc a (p # b)"]
        OggPage_read_cursor [OF assms] split: list.splits)

lemma collect_old_pages_eof:
  "collect_old_pages crc old_pages page (cursor_at crc a [])
   = (if packets page = [] then Inl IndexError
      else if startswith (last (packets page)) (CHR 0x05 # ''vorbis'')
      then Inr (old_pages, cursor_at crc a [])
      else Inl EOFError)"
  by (simp add: collect_old_pages.simps [of crc old_pages page "cursor_at crc a []"]
        OggPage_read_eof)

lemma read_comment_pages_step:
  assumes "valid_page p"
  shows "read_comment_pages crc ser pages (cursor_at crc a (p # b))
         = (if serial p = ser then
              (if complete p \<or> 1 < length (packets p)
               then Inr (pages @ [p\<lparr>offset := Some (length (bytes_of crc a))\<rparr>],
                         cursor_at crc (a @ [p]) b)
               else read_comment_pages crc ser
                      (pages @ [p\<lparr>offset := Some (length (bytes_of crc a))\<rparr>])
                      (cursor_at crc (a @ [p]) b))
            else read_comment_pages crc ser pages (cursor_at crc (a @ [p]) b))"
  by (simp add: read_comment_pages.simps [of crc ser pages "cursor_at crc a (p # b)"]
        OggPage_read_cursor [OF assms])

lemma skip_foreign_step:
  assumes "valid_page p"
  shows "skip_foreign crc ser page (cursor_at crc a (p # b))
         = (if serial page \<noteq> ser
            then skip_foreign crc ser (p\<lparr>offset := Some (length (bytes_of crc a))\<rparr>)
                   (cursor_at crc (a @ [p]) b)
            else Inr (page, cursor_at crc a (p # b)))"
  by (simp add: skip_foreign.simps [of crc ser page "cursor_at crc a (p # b)"]
        OggPage_read_cursor [OF assms])

lemma skip_foreign_eof:
  "skip_foreign crc ser page (cursor_at crc a [])
   = (if serial page \<noteq> ser then Inl EOFError else Inr (page, cursor_at crc a []))"
  by (simp add: skip_foreign.simps [of crc ser page "cursor_at crc a []"] OggPage_read_eof)

lemma find_id_page_step:
  assumes "valid_page p"
  shows "find_id_page crc (cursor_at crc a (p # b))
         = (case packets p of
              [] \<Rightarrow> Inl IndexError
            | p0 # _ \<Rightarrow>
                if startswith p0 (CHR 0x01 # ''vorbis'')
                then Inr (p\<lparr>offset := Some (length (bytes_of crc a))\<rparr>, cursor_at crc (a @ [p]) b)
                else find_id_page crc (cursor_at crc (a @ [p]) b))"
  by (simp add: find_id_page.simps [of crc "cursor_at crc a (p # b)"]
        OggPage_read_cursor [OF assms])

section \<open>Old and new frames\<close>

lemma frames_of_segments_Nil: "frames_of_segments [] = []"
  by (simp add: frames_of_segments.simps)

lemma frames_of_segments_small:
  assumes "segs \<noteq> []" "length segs \<le> 255"
  shows "frames_of_segments segs = [segs]"
  using assms by (simp add: frames_of_segments.simps [of segs] frames_of_segments_Nil)

lemma pages_from_flags:
  "p \<in> set (pages_from sq c chs) \<Longrightarrow> \<not> first p \<and> \<not> last_flag p"
  by (induction chs arbitrary: sq c) auto

lemma from_packets_flags:
  "p \<in> set (from_packets pkts sq) \<Longrightarrow> \<not> first p \<and> \<not> last_flag p"
  unfolding from_packets_def from_packets_policy_def by (rule pages_from_flags)

lemma set_butlast_last:
  assumes "xs \<noteq> []" "p \<in> set (butlast xs @ [f (last xs)])"
  shows "p \<in> set xs \<or> p = f (last xs)"
  using assms by (auto dest: in_set_butlastD)

lemma valid_inject_examples:
  "valid_page three_packet_page" "valid_page last_headers_page" "valid_page other_id_page"
  "valid_page other_headers_page" "valid_page headers_page"
  by (simp_all add: three_packet_page_def last_headers_page_def other_id_page_def
        other_headers_page_def headers_page_def valid_mk_page packet_lacing_def
        length_id_packet comment_packet_def setup_packet_def)

lemma marker_examples:
  "startswith comment_packet (CHR 0x03 # ''vorbis'')"
  "startswith setup_packet (CHR 0x05 # ''vorbis'')"
  "\<not> startswith id_packet (CHR 0x03 # ''vorbis'')"
  by (simp_all add: comment_packet_def setup_packet_def id_packet_def startswith_def)

lemma group_segments_packet:
  "group_segments acc (segments_n k p @ rest) = (acc @ p) # group_segments [] rest"
proof (induction k arbitrary: acc p)
  case 0
  show ?case by simp
next
  case (Suc k)
  have "group_segments acc (segments_n (Suc k) p @ rest)
        = group_segments (acc @ take 255 p) (segments_n k (drop 255 p) @ rest)" by simp
  also have "\<dots> = ((acc @ take 255 p) @ drop 255 p) # group_segments [] rest" by (rule Suc.IH)
  finally show ?case by simp
qed

lemma length_segments_n [simp]: "length (segments_n k p) = Suc k"
  by (induction k arbitrary: p) auto

lemma segments_n_not_Nil [simp]: "segments_n k p \<noteq> []"
  by (cases k) auto

lemma last_segments_n: "snd (last (segments_n k p))"
  by (induction k arbitrary: p) auto

lemma from_packets_one_frame:
  assumes "length p0 div 255 + length p1 div 255 + 2 \<le> 255"
  shows "from_packets [p0, p1] sq
         = [\<lparr> version = 0, position = 0, serial = 0, sequence = sq, continued = False,
              first = False, last_flag = False, packets = [p0, p1], complete = True,
              offset = None \<rparr>]"
proof -
  let ?segs = "segments_of p0 @ segments_of p1"
  have ne: "?segs \<noteq> []" by (simp add: segments_of_def)
  have len: "length ?segs \<le> 255" using assms by (simp add: segments_of_def)
  have grp: "group_segments [] ?segs = [p0, p1]"
    using group_segments_packet [of "[]" "length p0 div 255" p0 "segments_of p1"]
      group_segments_packet [of "[]" "length p1 div 255" p1 "[]"]
    by (simp add: segments_of_def)
  have lst: "snd (last ?segs)" by (simp add: segments_of_def last_segments_n)
  show ?thesis
    using ne grp lst
    by (simp add: from_packets_def from_packets_policy_def frames_of_segments_small [OF ne len])
qed

lemma add_packets_complete:
  "add_packets pending qs True
   = (if qs = [] then ([], pending) else ((pending @ hd qs) # tl qs, []))"
  by (induction pending qs True rule: add_packets.induct) (auto split: prod.splits)

lemma to_packets_single:
  assumes "complete p"
  shows "to_packets [p] = Inr (packets p)"
  using assms by (simp add: to_packets_def add_packets_complete)

lemma find_comment_page_skips:
  assumes "\<forall>q\<in>set u. valid_page q \<and> packets q \<noteq> []
              \<and> \<not> startswith (hd (packets q)) (CHR 0x03 # ''vorbis'')"
    and "valid_page p" "packets p \<noteq> []" "startswith (hd (packets p)) (CHR 0x03 # ''vorbis'')"
  shows "find_comment_page crc (cursor_at crc a (u @ p # w))
         = Inr (p\<lparr>offset := Some (length (bytes_of crc (a @ u)))\<rparr>, cursor_at crc (a @ u @ [p]) w)"
  using assms
proof (induction u arbitrary: a)
  case Nil
  then show ?case by (cases "packets p") (simp_all add: find_comment_page_step)
next
  case (Cons q u)
  from Cons.prems have q: "valid_page q" "packets q \<noteq> []"
    "\<not> startswith (hd (packets q)) (CHR 0x03 # ''vorbis'')" by simp_all
  have "find_comment_page crc (cursor_at crc a ((q # u) @ p # w))
        = find_comment_page crc (cursor_at crc (a @ [q]) (u @ p # w))"
    using q by (cases "packets q") (simp_all add: find_comment_page_step)
  also have "\<dots> = Inr (p\<lparr>offset := Some (length (bytes_of crc ((a @ [q]) @ u)))\<rparr>,
                      cursor_at crc ((a @ [q]) @ u @ [p]) w)"
    using Cons.prems by (intro Cons.IH) simp_all
  finally show ?case by (simp add: bytes_of_simps)
qed

lemma find_old_pages_one_frame:
  assumes "\<forall>q\<in>set u. valid_page q \<and> packets q \<noteq> []
              \<and> \<not> startswith (hd (packets q)) (CHR 0x03 # ''vorbis'')"
    and "valid_page h" "packets h \<noteq> []" "startswith (hd (packets h)) (CHR 0x03 # ''vorbis'')"
    and "startswith (last (packets h)) (CHR 0x05 # ''vorbis'')"
  shows "find_old_pages crc (bytes_of crc (u @ h # w)) 0
         = Inr ([h\<lparr>offset := Some (length (bytes_of crc u))\<rparr>], cursor_at crc (u @ [h]) w)"
proof -
  have "find_comment_page crc \<lparr>data = bytes_of crc (u @ h # w), pos = 0\<rparr>
        = Inr (h\<lparr>offset := Some (length (bytes_of crc u))\<rparr>, cursor_at crc (u @ [h]) w)"
    unfolding cursor_at_start
    using find_comment_page_skips [OF assms(1-4), of crc "[]" w] by simp
  moreover have "collect_old_pages crc [h\<lparr>offset := Some (length (bytes_of crc u))\<rparr>]
          (h\<lparr>offset := Some (length (bytes_of crc u))\<rparr>) (cursor_at crc (u @ [h]) w)
        = Inr ([h\<lparr>offset := Some (length (bytes_of crc u))\<rparr>], cursor_at crc (u @ [h]) w)"
    using assms(3,5)
    by (subst collect_old_pages.simps) simp
  ultimately show ?thesis by (simp add: find_old_pages_def)
qed

lemma id_page_no_comment:
  "\<forall>q\<in>set [id_page]. valid_page q \<and> packets q \<noteq> []
      \<and> \<not> startswith (hd (packets q)) (CHR 0x03 # ''vorbis'')"
  by (simp add: valid_examples) (simp add: id_page_def marker_examples)

lemma new_pages_of_one_frame:
  assumes "complete h" "packets h = [p0, p1]"
    and "length (CHR 0x03 # ''vorbis'' @ comment) div 255 + length p1 div 255 + 2 \<le> 255"
  shows "new_pages_of comment [h]
         = Inr [mk_page (serial h) (sequence h) False False 0 [CHR 0x03 # ''vorbis'' @ comment, p1]]"
  using assms(1,2) from_packets_one_frame [OF assms(3), of "sequence h"]
  by (simp add: new_pages_of_def to_packets_single mk_page_def)

lemma no_comment_before_other_headers:
  "\<forall>q\<in>set [id_page, other_id_page]. valid_page q \<and> packets q \<noteq> []
      \<and> \<not> startswith (hd (packets q)) (CHR 0x03 # ''vorbis'')"
  by (simp add: valid_examples valid_inject_examples)
     (simp add: id_page_def other_id_page_def marker_examples)

lemma lacing_table_two:
  "lacing_table (p\<lparr>packets := [a, b], complete := c\<rparr>)
   = (if \<not> c \<and> length b mod 255 = 0
      then packet_lacing a @ replicate (length b div 255) 255
      else packet_lacing a @ packet_lacing b)"
  by (simp add: lacing_table_def packet_lacing_def butlast_append)

lemma length_full_setup_packet: "length full_setup_packet = 255"
  by (simp add: full_setup_packet_def)

section \<open>The duration scans\<close>

lemma skip_foreign_same:
  "serial page = ser \<Longrightarrow> skip_foreign crc ser page fileobj = Inr (page, fileobj)"
  by (simp add: skip_foreign.simps [of crc ser page fileobj])

lemma slow_scan_returns:
  assumes "slow_scan crc ser page fileobj samples = Some r"
  shows "last_flag page \<or> serial page \<noteq> ser"
proof (rule slow_scan.raw_induct
    [where P = "\<lambda>crc ser page fileobj samples r. last_flag page \<or> serial page \<noteq> ser",
     OF _ assms])
  fix f :: "(bytes \<Rightarrow> 32 word) \<Rightarrow> 32 word \<Rightarrow> OggPage \<Rightarrow> fileobj \<Rightarrow> int \<Rightarrow> (error + int) option"
  fix crc ser page fileobj samples r
  assume IH: "\<And>crc ser page fileobj samples y.
      f crc ser page fileobj samples = Some y \<Longrightarrow> last_flag page \<or> serial page \<noteq> ser"
  assume eq: "(if last_flag page then Some (Inr samples)
      else case skip_foreign crc ser page fileobj of Inl e \<Rightarrow> Some (Inl e)
           | Inr (page', fileobj') \<Rightarrow>
               f crc ser page' fileobj'
                (if serial page' = ser then max samples (position page') else samples)) = Some r"
  show "last_flag page \<or> serial page \<noteq> ser"
  proof (rule ccontr)
    assume "\<not> (last_flag page \<or> serial page \<noteq> ser)"
    then have nl: "\<not> last_flag page" and s: "serial page = ser" by simp_all
    with eq have "f crc ser page fileobj (max samples (position page)) = Some r"
      by (simp add: skip_foreign_same)
    from IH [OF this] nl s show False by simp
  qed
qed

lemma slow_scan_stuck:
  assumes "\<not> last_flag page" "serial page = ser"
  shows "slow_scan crc ser page fileobj samples = None"
proof (cases "slow_scan crc ser page fileobj samples")
  case None
  then show ?thesis .
next
  case (Some r)
  from slow_scan_returns [OF Some] assms show ?thesis by simp
qed

lemma rindex_down_numeral:
  "rindex_down d s (numeral k)
   = (if startswith (drop (numeral k) d) s then Some (numeral k)
      else rindex_down d s (pred_numeral k))"
  by (simp only: numeral_eq_Suc rindex_down.simps)

lemma write_foreign_last:
  "OggPage_write bytesum foreign_last_page
   = [CHR ''O'', CHR ''g'', CHR ''g'', CHR ''S'', CHR 0x00, CHR 0x04, CHR 0xF4,
      CHR 0x01, CHR 0x00, CHR 0x00, CHR 0x00, CHR 0x00, CHR 0x00, CHR 0x00,
      CHR 0x09, CHR 0x00, CHR 0x00, CHR 0x00, CHR 0x01, CHR 0x00, CHR 0x00,
      CHR 0x00, CHR ''j'', CHR 0x03, CHR 0x00, CHR 0x00, CHR 0x01, CHR 0x02,
      CHR ''z'', CHR ''z'']"
  by (simp add: OggPage_write_def header_bytes_def body_bytes_def lacing_table_def
        packet_lacing_def flags_byte_def mk_page_def foreign_last_page_def bytesum_def
        le_bytes_numeral)
     (simp add: char_of_def bit_iff_odd)

lemma rindex_foreign_last: "rindex (OggPage_write bytesum foreign_last_page) ''OggS'' = Some 0"
  unfolding write_foreign_last
  by (simp add: rindex_def rindex_down_numeral startswith_def)

lemma startswith_length: "startswith x s \<Longrightarrow> length s \<le> length x"
  by (metis startswith_def length_take min.cobounded2 min.commute)

lemma rindex_down_None:
  "rindex_down d s i = None \<longleftrightarrow> (\<forall>j\<le>i. \<not> startswith (drop j d) s)"
  by (induction i) (auto simp: le_Suc_eq)

lemma rindex_down_Some:
  "rindex_down d s i = Some k \<longleftrightarrow>
     k \<le> i \<and> startswith (drop k d) s \<and> (\<forall>j. k < j \<and> j \<le> i \<longrightarrow> \<not> startswith (drop j d) s)"
proof (induction i)
  case 0
  show ?case by auto
next
  case (Suc i)
  show ?case
  proof (cases "startswith (drop (Suc i) d) s")
    case True
    have "k = Suc i" if "k \<le> Suc i"
      "\<forall>j. k < j \<and> j \<le> Suc i \<longrightarrow> \<not> startswith (drop j d) s"
    proof (rule ccontr)
      assume "k \<noteq> Suc i"
      with that(1) have "k < Suc i" by simp
      with that(2) True show False by blast
    qed
    with True show ?thesis by auto
  next
    case False
    have "(\<forall>j. k < j \<and> j \<le> Suc i \<longrightarrow> \<not> startswith (drop j d) s)
          \<longleftrightarrow> (\<forall>j. k < j \<and> j \<le> i \<longrightarrow> \<not> startswith (drop j d) s)"
      using False by (auto simp: le_Suc_eq)
    moreover have "k \<le> Suc i \<and> startswith (drop k d) s \<longleftrightarrow> k \<le> i \<and> startswith (drop k d) s"
      using False by (auto simp: le_Suc_eq)
    ultimately show ?thesis using False Suc by auto
  qed
qed

lemma startswith_beyond:
  assumes "s \<noteq> []" "startswith (drop j d) s"
  shows "length s \<le> length d \<and> j \<le> length d - length s"
proof -
  from startswith_length [OF assms(2)] have "length s \<le> length d - j" by simp
  moreover from assms(1) have "0 < length s" by simp
  ultimately show ?thesis by arith
qed

lemma rindex_None_iff:
  assumes "s \<noteq> []"
  shows "rindex d s = None \<longleftrightarrow> (\<forall>j. \<not> startswith (drop j d) s)"
proof (cases "length d < length s")
  case True
  have "\<not> startswith (drop j d) s" for j
    using startswith_beyond [OF assms, of j d] True by auto
  with True show ?thesis by (simp add: rindex_def)
next
  case False
  have "(\<forall>j\<le>length d - length s. \<not> startswith (drop j d) s)
        \<longleftrightarrow> (\<forall>j. \<not> startswith (drop j d) s)"
    using startswith_beyond [OF assms, of _ d] by blast
  with False show ?thesis by (simp add: rindex_def rindex_down_None)
qed

lemma rindex_Some_iff:
  assumes "s \<noteq> []"
  shows "rindex d s = Some k \<longleftrightarrow>
           startswith (drop k d) s \<and> (\<forall>j>k. \<not> startswith (drop j d) s)"
proof (cases "length d < length s")
  case True
  have "\<not> startswith (drop j d) s" for j
    using startswith_beyond [OF assms, of j d] True by auto
  with True show ?thesis by (simp add: rindex_def)
next
  case False
  have "k \<le> length d - length s \<and> startswith (drop k d) s
          \<and> (\<forall>j. k < j \<and> j \<le> length d - length s \<longrightarrow> \<not> startswith (drop j d) s)
        \<longleftrightarrow> startswith (drop k d) s \<and> (\<forall>j>k. \<not> startswith (drop j d) s)"
    using startswith_beyond [OF assms, of _ d] by blast
  with False show ?thesis by (simp add: rindex_def rindex_down_Some)
qed

lemma rindex_append:
  assumes "s \<noteq> []" "rindex B s = Some 0"
  shows "rindex (A @ B) s = Some (length A)"
proof -
  from assms have b: "startswith B s" "\<And>j. 0 < j \<Longrightarrow> \<not> startswith (drop j B) s"
    by (simp_all add: rindex_Some_iff)
  have "\<not> startswith (drop j (A @ B)) s" if "length A < j" for j
    using b(2) [of "j - length A"] that by simp
  with b(1) show ?thesis by (simp add: rindex_Some_iff [OF assms(1)])
qed

lemma startswith_magic: "startswith x ''OggS'' \<longleftrightarrow> take 4 x = ''OggS''"
proof -
  have "length ''OggS'' = 4" by simp
  then show ?thesis unfolding startswith_def by (simp only:)
qed

lemma write_audio:
  "OggPage_write bytesum audio_page
   = [CHR ''O'', CHR ''g'', CHR ''g'', CHR ''S'', CHR 0x00, CHR 0x04, CHR 0x88,
      CHR ''X'', CHR 0x01, CHR 0x00, CHR 0x00, CHR 0x00, CHR 0x00, CHR 0x00,
      CHR 0x07, CHR 0x00, CHR 0x00, CHR 0x00, CHR 0x02, CHR 0x00, CHR 0x00,
      CHR 0x00, CHR ''7'', CHR 0x03, CHR 0x00, CHR 0x00, CHR 0x01, CHR 0x02,
      CHR ''a'', CHR ''u'']"
  by (simp add: OggPage_write_def header_bytes_def body_bytes_def lacing_table_def
        packet_lacing_def flags_byte_def mk_page_def audio_page_def bytesum_def
        le_bytes_numeral)
     (simp add: char_of_def bit_iff_odd)

lemma rindex_audio: "rindex (OggPage_write bytesum audio_page) ''OggS'' = Some 0"
  unfolding write_audio
  by (simp add: rindex_def rindex_down_numeral startswith_def)

lemma valid_load_examples: "valid_page audio_page" "valid_page foreign_last_page"
  by (simp_all add: audio_page_def foreign_last_page_def valid_mk_page packet_lacing_def)

lemma length_bytes_of: "length (bytes_of crc ps) = sum_list (map page_size ps)"
  by (induction ps) (simp_all add: bytes_of_simps length_OggPage_write)

lemma page_size_mk_page:
  "page_size (mk_page ser sq fs ls ps pk)
   = 27 + length (concat (map packet_lacing pk)) + length (concat pk)"
  by (simp add: page_size_def lacing_table_def mk_page_def)

lemma info_of_frames:
  "OggVorbisInfo_init bytesum \<lparr>data = bytes_of bytesum (id_page # rest), pos = 0\<rparr>
   = Inr (\<lparr>info_channels = 2, info_sample_rate = 44100, info_serial = 7,
            info_bitrate = 128000\<rparr>, cursor_at bytesum [id_page] rest)"
proof -
  have "find_id_page bytesum (cursor_at bytesum [] (id_page # rest))
        = Inr (id_page\<lparr>offset := Some (length (bytes_of bytesum []))\<rparr>,
               cursor_at bytesum [id_page] rest)"
    by (simp add: find_id_page_step valid_examples) (simp add: id_page_def id_packet_marker)
  then show ?thesis
    unfolding OggVorbisInfo_init_def cursor_at_start
    by (simp add: id_page_def info_of_id_packet)
qed

lemma tags_of_frames:
  "OggVCommentDict_init bytesum (cursor_at bytesum [id_page] (headers_page # rest))
     \<lparr>info_channels = 2, info_sample_rate = 44100, info_serial = 7, info_bitrate = 128000\<rparr>
   = Inr (''ABC'', cursor_at bytesum [id_page, headers_page] rest)"
proof -
  have "read_comment_pages bytesum 7 [] (cursor_at bytesum [id_page] (headers_page # rest))
        = Inr ([headers_page\<lparr>offset := Some (length (bytes_of bytesum [id_page]))\<rparr>],
               cursor_at bytesum [id_page, headers_page] rest)"
    by (simp add: read_comment_pages_step valid_inject_examples) (simp add: headers_page_def)
  then show ?thesis
    unfolding OggVCommentDict_init_def
    by simp (simp add: to_packets_single headers_page_def comment_packet_def)
qed

lemma read_single:
  assumes "valid_page p"
  shows "OggPage_read crc \<lparr>data = OggPage_write crc p, pos = 0\<rparr>
         = Inr (p\<lparr>offset := Some 0\<rparr>, cursor_at crc [p] [])"
  using OggPage_read_cursor [OF assms, of crc "[]" "[]"]
  by (simp add: cursor_at_def bytes_of_simps)

lemma OggPage_read_at:
  assumes "valid_page p"
  shows "OggPage_read crc \<lparr>data = pre @ OggPage_write crc p @ rest, pos = length pre\<rparr>
         = Inr (p\<lparr>offset := Some (length pre)\<rparr>,
                \<lparr>data = pre @ OggPage_write crc p @ rest, pos = length pre + page_size p\<rparr>)"
  using decode_write [OF assms, of crc rest]
  by (simp add: OggPage_read_def)

lemma info_of_junk_tail:
  "OggVorbisInfo_init bytesum \<lparr>data = junk_tail_file, pos = 0\<rparr>
   = Inr (\<lparr>info_channels = 2, info_sample_rate = 44100, info_serial = 7,
            info_bitrate = 128000\<rparr>,
          \<lparr>data = junk_tail_file, pos = page_size id_page\<rparr>)"
proof -
  have d: "junk_tail_file = [] @ OggPage_write bytesum id_page
             @ (OggPage_write bytesum headers_page @ replicate (256 * 256) (CHR 0x00))"
    by (simp add: junk_tail_file_def bytes_of_simps)
  have "OggPage_read bytesum \<lparr>data = junk_tail_file, pos = 0\<rparr>
        = Inr (id_page\<lparr>offset := Some 0\<rparr>, \<lparr>data = junk_tail_file, pos = page_size id_page\<rparr>)"
    using OggPage_read_at [OF valid_examples(3), of bytesum "[]"
        "OggPage_write bytesum headers_page @ replicate (256 * 256) (CHR 0x00)"]
    unfolding d [symmetric] by simp
  then have "find_id_page bytesum \<lparr>data = junk_tail_file, pos = 0\<rparr>
        = Inr (id_page\<lparr>offset := Some 0\<rparr>, \<lparr>data = junk_tail_file, pos = page_size id_page\<rparr>)"
    by (subst find_id_page.simps) (simp add: id_page_def id_packet_marker)
  then show ?thesis
    unfolding OggVorbisInfo_init_def by (simp add: id_page_def info_of_id_packet)
qed

lemma tags_of_junk_tail:
  "OggVCommentDict_init bytesum \<lparr>data = junk_tail_file, pos = page_size id_page\<rparr>
     \<lparr>info_channels = 2, info_sample_rate = 44100, info_serial = 7, info_bitrate = 128000\<rparr>
   = Inr (''ABC'', \<lparr>data = junk_tail_file, pos = page_size id_page + page_size headers_page\<rparr>)"
proof -
  have d: "junk_tail_file = OggPage_write bytesum id_page @ OggPage_write bytesum headers_page
             @ replicate (256 * 256) (CHR 0x00)"
    by (simp add: junk_tail_file_def bytes_of_simps)
  have "OggPage_read bytesum \<lparr>data = junk_tail_file, pos = page_size id_page\<rparr>
        = Inr (headers_page\<lparr>offset := Some (page_size id_page)\<rparr>,
               \<lparr>data = junk_tail_file, pos = page_size id_page + page_size headers_page\<rparr>)"
    using OggPage_read_at [OF valid_inject_examples(5), of bytesum "OggPage_write bytesum id_page"
        "replicate (256 * 256) (CHR 0x00)"]
    unfolding d [symmetric] length_OggPage_write by simp
  then have "read_comment_pages bytesum 7 [] \<lparr>data = junk_tail_file, pos = page_size id_page\<rparr>
        = Inr ([headers_page\<lparr>offset := Some (page_size id_page)\<rparr>],
               \<lparr>data = junk_tail_file, pos = page_size id_page + page_size headers_page\<rparr>)"
    by (subst read_comment_pages.simps) (simp add: headers_page_def)
  then show ?thesis
    unfolding OggVCommentDict_init_def
    by simp (simp add: to_packets_single headers_page_def comment_packet_def)
qed

lemma no_magic_in_zeros: "take 4 (drop j (replicate n (CHR 0x00))) \<noteq> ''OggS''"
proof
  assume a: "take 4 (drop j (replicate n (CHR 0x00))) = ''OggS''"
  have "set (take 4 (drop j (replicate n (CHR 0x00)))) \<subseteq> {CHR 0x00}"
    by (auto dest!: in_set_takeD in_set_dropD)
  with a show False by simp
qed

lemma tail_of_junk_tail: "tail_data junk_tail_file = replicate (256 * 256) (CHR 0x00)"
  by (simp add: tail_data_def junk_tail_file_def)

lemma tail_plain: "tail_data (bytes_of bytesum plain_frames) = bytes_of bytesum plain_frames"
proof -
  have "length (bytes_of bytesum plain_frames) < 256 * 256"
    by (simp add: plain_frames_def length_bytes_of id_page_def headers_page_def audio_page_def
          page_size_mk_page packet_lacing_def length_id_packet
          comment_packet_def setup_packet_def)
  then show ?thesis by (simp add: tail_data_def)
qed

lemma split_plain:
  "bytes_of bytesum plain_frames
   = bytes_of bytesum [id_page, headers_page] @ OggPage_write bytesum audio_page"
  by (simp add: plain_frames_def bytes_of_simps)

lemma rindex_plain:
  "rindex (bytes_of bytesum plain_frames) ''OggS''
   = Some (length (bytes_of bytesum [id_page, headers_page]))"
  unfolding split_plain by (rule rindex_append [OF _ rindex_audio]) simp

lemma read_last_plain:
  "OggPage_read bytesum
     \<lparr>data = drop (length (bytes_of bytesum [id_page, headers_page]))
               (bytes_of bytesum plain_frames), pos = 0\<rparr>
   = Inr (audio_page\<lparr>offset := Some 0\<rparr>, cursor_at bytesum [audio_page] [])"
  unfolding split_plain by (simp add: read_single valid_load_examples)

section \<open>Renumbering and the splice\<close>

lemma write_offset [simp]: "OggPage_write crc (p\<lparr>offset := x\<rparr>) = OggPage_write crc p"
  by (simp add: OggPage_write_def header_bytes_def body_bytes_def lacing_table_def flags_byte_def)

lemma page_size_offset [simp]: "page_size (p\<lparr>offset := x\<rparr>) = page_size p"
  by (simp add: page_size_def lacing_table_def)

lemma page_size_sequence [simp]: "page_size (p\<lparr>sequence := x\<rparr>) = page_size p"
  by (simp add: page_size_def lacing_table_def)

lemma valid_page_sequence [simp]: "valid_page (p\<lparr>sequence := x\<rparr>) = valid_page p"
  by (simp add: valid_page_def lacing_table_def)

lemma renumber_frame_write:
  "renumber_frame crc (A @ OggPage_write crc p @ C) (length A) (page_size p) n
   = A @ OggPage_write crc (p\<lparr>sequence := n\<rparr>) @ C"
proof -
  define B where "B = body_bytes p"
  define H1 where "H1 = ''OggS'' @ [char_of (version p), char_of (flags_byte p)]
       @ le_bytes 8 (nat (position p mod 2 ^ 64)) @ le_bytes 4 (unat (serial p))"
  define T where "T = char_of (length (lacing_table p)) # B"
  have lenH1: "length H1 = 18" by (simp add: H1_def)
  have w: "OggPage_write crc q = H1 @ le_bytes 4 (unat (sequence q))
             @ le_bytes 4 (unat (crc (H1 @ le_bytes 4 (unat (sequence q)) @ le_bytes 4 0 @ T))) @ T"
    if "q = p\<lparr>sequence := s\<rparr>" for q s
    using that
    by (simp add: OggPage_write_def header_bytes_def body_bytes_def lacing_table_def
          flags_byte_def H1_def T_def B_def del: le_bytes.simps)
  have wp: "OggPage_write crc p = H1 @ le_bytes 4 (unat (sequence p))
             @ le_bytes 4 (unat (crc (H1 @ le_bytes 4 (unat (sequence p)) @ le_bytes 4 0 @ T))) @ T"
    using w [of p "sequence p"] by simp
  define X where "X = le_bytes 4 (unat (sequence p))
             @ le_bytes 4 (unat (crc (H1 @ le_bytes 4 (unat (sequence p)) @ le_bytes 4 0 @ T)))"
  have lenX: "length X = 8" by (simp add: X_def del: le_bytes.simps)
  have wp': "OggPage_write crc p = H1 @ X @ T" by (simp add: wp X_def)
  have sz: "page_size p = length (H1 @ X @ T)"
    unfolding length_OggPage_write [of crc p, symmetric] wp' ..
  have fr: "take (page_size p) (drop (length A) (A @ OggPage_write crc p @ C)) = H1 @ X @ T"
    unfolding sz wp' by simp
  have t18: "take 18 (H1 @ X @ T) = H1" using lenH1 by simp
  have d26: "drop 26 (H1 @ X @ T) = T" using lenH1 lenX by simp
  have rest: "drop (length A + page_size p) (A @ OggPage_write crc p @ C) = C"
    unfolding sz wp' by simp
  show ?thesis
    unfolding renumber_frame_def Let_def fr t18 d26 rest
    using w [of "p\<lparr>sequence := n\<rparr>" n]
    by (simp del: le_bytes.simps)
qed

lemma renumber_step:
  assumes "valid_page p"
  shows "renumber crc (cursor_at crc a (p # b)) ser n
         = (if serial p \<noteq> ser then renumber crc (cursor_at crc (a @ [p]) b) ser n
            else renumber crc (cursor_at crc (a @ [p\<lparr>sequence := n\<rparr>]) b) ser (n + 1))"
proof -
  have r: "OggPage_read crc (cursor_at crc a (p # b))
           = Inr (p\<lparr>offset := Some (length (bytes_of crc a))\<rparr>, cursor_at crc (a @ [p]) b)"
    by (rule OggPage_read_cursor [OF assms])
  have f: "(cursor_at crc (a @ [p]) b)
             \<lparr>data := renumber_frame crc (data (cursor_at crc (a @ [p]) b))
                        (pos (cursor_at crc a (p # b)))
                        (pos (cursor_at crc (a @ [p]) b) - pos (cursor_at crc a (p # b))) n\<rparr>
           = cursor_at crc (a @ [p\<lparr>sequence := n\<rparr>]) b"
    using renumber_frame_write [of crc "bytes_of crc a" p "bytes_of crc b" n]
    by (simp add: cursor_at_def bytes_of_simps length_OggPage_write)
  show ?thesis
    by (subst renumber.simps) (simp add: r f)
qed

lemma renumber_all:
  assumes "\<forall>q\<in>set w. valid_page q"
  shows "renumber crc (cursor_at crc a w) ser n = (Inr (), cursor_at crc (a @ renumbered ser n w) [])"
  using assms
proof (induction w arbitrary: a n)
  case Nil
  show ?case by (subst renumber.simps) (simp add: OggPage_read_eof)
next
  case (Cons p w)
  then have v: "valid_page p" and vw: "\<forall>q\<in>set w. valid_page q" by simp_all
  show ?case
    by (simp add: renumber_step [OF v] Cons.IH [OF vw])
qed

lemma ends_at_setup_offset [simp]:
  "ends_at_setup (p\<lparr>offset := x\<rparr> # u) = ends_at_setup (p # u)"
  by (cases u) simp_all

lemma place_append:
  "place n (xs @ ys) = place n xs @ place (n + length (bytes_of crc xs)) ys"
  by (induction xs arbitrary: n) (simp_all add: bytes_of_simps length_OggPage_write add.assoc)

lemma bytes_of_place [simp]: "bytes_of crc (place n xs) = bytes_of crc xs"
  by (induction xs arbitrary: n) (simp_all add: bytes_of_simps)

lemma collect_old_pages_run:
  assumes "\<forall>q\<in>set u. valid_page q" "acc \<noteq> []" "serial (hd acc) = ser"
    and "ends_at_setup (page # u)"
  shows "collect_old_pages crc acc page (cursor_at crc a (u @ w))
         = Inr (acc @ filter (\<lambda>q. serial q = ser) (place (length (bytes_of crc a)) u),
                cursor_at crc (a @ u) w)"
  using assms
proof (induction u arbitrary: acc page a)
  case Nil
  then show ?case
    by (cases w) (simp_all add: collect_old_pages.simps [of crc acc page])
next
  case (Cons q u)
  from Cons.prems obtain old0 rest where acc: "acc = old0 # rest" and s0: "serial old0 = ser"
    by (cases acc) auto
  from Cons.prems have v: "valid_page q" and vu: "\<forall>q\<in>set u. valid_page q"
    and pg: "packets page \<noteq> []" "\<not> startswith (last (packets page)) (CHR 0x05 # ''vorbis'')"
    and e: "ends_at_setup (q # u)"
    by simp_all
  let ?q = "q\<lparr>offset := Some (length (bytes_of crc a))\<rparr>"
  have e': "ends_at_setup (?q # u)" using e by simp
  have pl: "place (length (bytes_of crc a)) (q # u)
            = ?q # place (length (bytes_of crc (a @ [q]))) u"
    by (simp add: bytes_of_simps length_OggPage_write)
  show ?case
  proof (cases "serial q = ser")
    case True
    have "collect_old_pages crc acc page (cursor_at crc a ((q # u) @ w))
          = collect_old_pages crc (acc @ [?q]) ?q (cursor_at crc (a @ [q]) (u @ w))"
      using pg True by (simp add: collect_old_pages_step [OF v] acc s0)
    also have "\<dots> = Inr ((acc @ [?q]) @ filter (\<lambda>q. serial q = ser)
                           (place (length (bytes_of crc (a @ [q]))) u),
                         cursor_at crc ((a @ [q]) @ u) w)"
      by (rule Cons.IH [OF vu _ _ e']) (simp_all add: acc s0)
    finally show ?thesis unfolding pl using True by simp
  next
    case False
    have "collect_old_pages crc acc page (cursor_at crc a ((q # u) @ w))
          = collect_old_pages crc acc ?q (cursor_at crc (a @ [q]) (u @ w))"
      using pg False by (simp add: collect_old_pages_step [OF v] acc s0)
    also have "\<dots> = Inr (acc @ filter (\<lambda>q. serial q = ser)
                           (place (length (bytes_of crc (a @ [q]))) u),
                         cursor_at crc ((a @ [q]) @ u) w)"
      by (rule Cons.IH [OF vu _ _ e']) (simp_all add: acc s0)
    finally show ?thesis unfolding pl using False by simp
  qed
qed

lemma find_old_pages_run:
  assumes "\<forall>q\<in>set a. valid_page q \<and> packets q \<noteq> []
              \<and> \<not> startswith (hd (packets q)) (CHR 0x03 # ''vorbis'')"
    and "valid_page h" "packets h \<noteq> []" "startswith (hd (packets h)) (CHR 0x03 # ''vorbis'')"
    and "\<forall>q\<in>set u. valid_page q" "ends_at_setup (h # u)"
  shows "find_old_pages crc (bytes_of crc (a @ h # u @ w)) 0
         = Inr (filter (\<lambda>q. serial q = serial h) (place (length (bytes_of crc a)) (h # u)),
                cursor_at crc (a @ h # u) w)"
proof -
  let ?h = "h\<lparr>offset := Some (length (bytes_of crc a))\<rparr>"
  have f: "find_comment_page crc \<lparr>data = bytes_of crc (a @ h # u @ w), pos = 0\<rparr>
        = Inr (?h, cursor_at crc (a @ [h]) (u @ w))"
    unfolding cursor_at_start
    using find_comment_page_skips [OF assms(1-4), of crc "[]" "u @ w"] by simp
  have e: "ends_at_setup (?h # u)" using assms(6) by simp
  have c: "collect_old_pages crc [?h] ?h (cursor_at crc (a @ [h]) (u @ w))
        = Inr ([?h] @ filter (\<lambda>q. serial q = serial h)
                        (place (length (bytes_of crc (a @ [h]))) u),
               cursor_at crc ((a @ [h]) @ u) w)"
    by (rule collect_old_pages_run [OF assms(5) _ _ e]) simp_all
  show ?thesis
    unfolding find_old_pages_def f using c
    by (simp add: bytes_of_simps length_OggPage_write)
qed

lemma delete_old_pages_run:
  assumes "delta \<le> length P"
  shows "delete_old_pages (P @ bytes_of crc mid @ C) delta
           (rev (filter (\<lambda>q. serial q = ser) (place (length P - delta) mid)))
         = Inr (P @ bytes_of crc (filter (\<lambda>q. serial q \<noteq> ser) mid) @ C)"
proof (induction mid arbitrary: C rule: rev_induct)
  case Nil
  show ?case by (simp add: bytes_of_simps)
next
  case (snoc m mid)
  let ?off = "length P - delta + length (bytes_of crc mid)"
  have pl: "place (length P - delta) (mid @ [m])
            = place (length P - delta) mid @ [m\<lparr>offset := Some ?off\<rparr>]"
    by (simp add: place_append [of _ _ _ crc])
  show ?case
  proof (cases "serial m = ser")
    case True
    have del: "delete_bytes (P @ bytes_of crc (mid @ [m]) @ C) (page_size m) (?off + delta)
               = P @ bytes_of crc mid @ C"
      using assms by (simp add: delete_bytes_def bytes_of_simps length_OggPage_write)
    show ?thesis
      unfolding pl using True snoc.IH [of C]
      by (simp add: del)
  next
    case False
    show ?thesis
      unfolding pl using False snoc.IH [of "OggPage_write crc m @ C"]
      by (simp add: bytes_of_simps)
  qed
qed

lemma write_new_data:
  "file_write \<lparr>data = insert_space (A @ R) (length N) (length A), pos = length A\<rparr> N
   = \<lparr>data = A @ N @ R, pos = length A + length N\<rparr>"
  by (simp add: file_write_def insert_space_def)

lemma new_pages_of_serial:
  assumes "new_pages_of comment (old0 # olds) = Inr news"
  shows "news \<noteq> [] \<and> (\<forall>p\<in>set news. serial p = serial old0)"
proof -
  define raw where "raw = map (\<lambda>page. page\<lparr>serial := serial old0\<rparr>)
      (from_packets ((case to_packets (old0 # olds) of Inr pkts \<Rightarrow> pkts | Inl e \<Rightarrow> [])
                       [0 := CHR 0x03 # ''vorbis'' @ comment]) (sequence old0))"
  from assms have ne: "raw \<noteq> []"
    and n: "news = butlast raw @ [(last raw)\<lparr>complete := complete (last (old0 # olds))\<rparr>]"
    unfolding new_pages_of_def raw_def Let_def
    by (auto split: sum.splits if_splits)
  have s: "\<forall>p\<in>set raw. serial p = serial old0" by (auto simp: raw_def)
  have "serial p = serial old0" if "p \<in> set news" for p
  proof -
    from that n have "p \<in> set (butlast raw) \<or> p = (last raw)\<lparr>complete := complete (last (old0 # olds))\<rparr>"
      by auto
    then show ?thesis
    proof
      assume "p \<in> set (butlast raw)"
      then have "p \<in> set raw" by (rule in_set_butlastD)
      with s show ?thesis by simp
    next
      assume "p = (last raw)\<lparr>complete := complete (last (old0 # olds))\<rparr>"
      moreover have "last raw \<in> set raw" using ne by simp
      ultimately show ?thesis using s by simp
    qed
  qed
  with n show ?thesis by simp
qed

lemma length_filter_place:
  "length (filter (\<lambda>q. serial q = ser) (place n xs)) = length (filter (\<lambda>q. serial q = ser) xs)"
  by (induction xs arbitrary: n) auto

lemma splice_steps:
  assumes "olds = old0 # rest" "offset old0 = Some off0"
    and "file_write \<lparr>data = insert_space d (length (concat (map (OggPage_write crc) news))) off0,
                      pos = off0\<rparr> (concat (map (OggPage_write crc) news))
         = \<lparr>data = d2, pos = e\<rparr>"
    and "delete_old_pages d2 (length (concat (map (OggPage_write crc) news))) (rev olds) = Inr d3"
  shows "splice crc d olds news
         = (if length olds \<noteq> length news
            then (case renumber crc \<lparr>data = d3, pos = e\<rparr> (serial (last news))
                         (sequence (last news) + 1) of
                    (r, f4) \<Rightarrow> (r, data f4))
            else (Inr (), d3))"
  unfolding splice_def Let_def assms(1) list.case assms(2) option.case assms(3) fileobj.simps
    assms(4) [unfolded assms(1)] sum.case
  by (rule refl)

lemma splice_run:
  assumes "serial (last news) = serial h"
    and "\<forall>q\<in>set u. valid_page q" "\<forall>q\<in>set b. valid_page q"
  shows "splice crc (bytes_of crc (a @ h # u @ b))
           (filter (\<lambda>q. serial q = serial h) (place (length (bytes_of crc a)) (h # u))) news
         = (Inr (), bytes_of crc (a @ news @
              (if length (filter (\<lambda>q. serial q = serial h) (h # u)) \<noteq> length news
               then renumbered (serial h) (sequence (last news) + 1)
                      (filter (\<lambda>q. serial q \<noteq> serial h) u @ b)
               else filter (\<lambda>q. serial q \<noteq> serial h) u @ b)))"
proof -
  let ?A = "bytes_of crc a"
  let ?N = "concat (map (OggPage_write crc) news)"
  let ?olds = "filter (\<lambda>q. serial q = serial h) (place (length ?A) (h # u))"
  let ?keep = "filter (\<lambda>q. serial q \<noteq> serial h) u"
  have N: "?N = bytes_of crc news" by (simp add: bytes_of_def)
  have olds: "?olds = h\<lparr>offset := Some (length ?A)\<rparr>
                # filter (\<lambda>q. serial q = serial h) (place (length ?A + page_size h) u)"
    by simp
  have off: "offset (h\<lparr>offset := Some (length ?A)\<rparr>) = Some (length ?A)" by simp
  have d: "bytes_of crc (a @ h # u @ b) = ?A @ (bytes_of crc (h # u) @ bytes_of crc b)"
    by (simp add: bytes_of_simps)
  have w: "file_write \<lparr>data = insert_space (bytes_of crc (a @ h # u @ b)) (length ?N) (length ?A),
                       pos = length ?A\<rparr> ?N
           = \<lparr>data = (?A @ ?N) @ (bytes_of crc (h # u) @ bytes_of crc b),
              pos = length ?A + length ?N\<rparr>"
    unfolding d using write_new_data [of ?A "bytes_of crc (h # u) @ bytes_of crc b" ?N] by simp
  have del: "delete_old_pages ((?A @ ?N) @ (bytes_of crc (h # u) @ bytes_of crc b)) (length ?N)
               (rev ?olds)
             = Inr ((?A @ ?N) @ bytes_of crc ?keep @ bytes_of crc b)"
    using delete_old_pages_run [of "length ?N" "?A @ ?N" crc "h # u" "bytes_of crc b" "serial h"]
    by simp
  have len: "length ?olds = length (filter (\<lambda>q. serial q = serial h) (h # u))"
    by (rule length_filter_place)
  have vk: "\<forall>q\<in>set (?keep @ b). valid_page q" using assms(2,3) by auto
  have cur: "\<lparr>data = (?A @ ?N) @ bytes_of crc ?keep @ bytes_of crc b,
               pos = length ?A + length ?N\<rparr>
             = cursor_at crc (a @ news) (?keep @ b)"
    by (simp add: cursor_at_def bytes_of_simps N)
  have ren: "renumber crc (cursor_at crc (a @ news) (?keep @ b)) (serial h)
               (sequence (last news) + 1)
             = (Inr (), cursor_at crc ((a @ news)
                  @ renumbered (serial h) (sequence (last news) + 1) (?keep @ b)) [])"
    by (rule renumber_all [OF vk])
  have out: "(?A @ ?N) @ bytes_of crc ?keep @ bytes_of crc b = bytes_of crc (a @ news @ ?keep @ b)"
    by (simp add: bytes_of_simps N)
  have "splice crc (bytes_of crc (a @ h # u @ b)) ?olds news
        = (if length ?olds \<noteq> length news
           then (case renumber crc (cursor_at crc (a @ news) (?keep @ b)) (serial h)
                        (sequence (last news) + 1) of
                   (r, f4) \<Rightarrow> (r, data f4))
           else (Inr (), (?A @ ?N) @ bytes_of crc ?keep @ bytes_of crc b))"
    unfolding splice_steps [OF olds off w del] cur assms(1) ..
  then show ?thesis
    unfolding ren len out by (simp add: cursor_at_def)
qed

lemma inject_run:
  assumes "\<forall>q\<in>set a. valid_page q \<and> packets q \<noteq> []
              \<and> \<not> startswith (hd (packets q)) (CHR 0x03 # ''vorbis'')"
    and "valid_page h" "packets h \<noteq> []" "startswith (hd (packets h)) (CHR 0x03 # ''vorbis'')"
    and "\<forall>q\<in>set u. valid_page q" "ends_at_setup (h # u)"
    and "\<forall>q\<in>set b. valid_page q"
    and "new_pages_of comment
           (filter (\<lambda>q. serial q = serial h) (place (length (bytes_of crc a)) (h # u)))
         = Inr news"
  shows "inject crc comment (bytes_of crc (a @ h # u @ b)) 0
         = (Inr (), bytes_of crc (a @ news @
              (if length (filter (\<lambda>q. serial q = serial h) (h # u)) \<noteq> length news
               then renumbered (serial h) (sequence (last news) + 1)
                      (filter (\<lambda>q. serial q \<noteq> serial h) u @ b)
               else filter (\<lambda>q. serial q \<noteq> serial h) u @ b)))"
proof -
  let ?olds = "filter (\<lambda>q. serial q = serial h) (place (length (bytes_of crc a)) (h # u))"
  have olds: "?olds = h\<lparr>offset := Some (length (bytes_of crc a))\<rparr>
                # filter (\<lambda>q. serial q = serial h)
                    (place (length (bytes_of crc a) + page_size h) u)"
    by simp
  from new_pages_of_serial [OF assms(8) [unfolded olds]]
  have ne: "news \<noteq> []" and s: "\<forall>p\<in>set news. serial p = serial h" by simp_all
  from ne have "last news \<in> set news" by simp
  with s have sl: "serial (last news) = serial h" by simp
  have f: "find_old_pages crc (bytes_of crc (a @ h # u @ b)) 0
           = Inr (?olds, cursor_at crc (a @ h # u) b)"
    by (rule find_old_pages_run [OF assms(1-6)])
  show ?thesis
    unfolding inject_def f sum.case prod.case assms(8)
    by (rule splice_run [OF sl assms(5,7)])
qed

lemma contiguous_count_from: "contiguous (count_from sq k)"
proof (induction k arbitrary: sq)
  case 0
  show ?case by simp
next
  case (Suc k)
  from Suc [of "sq + 1"] show ?case by (cases k) simp_all
qed

lemma contiguous_Cons:
  "contiguous (x # xs) \<longleftrightarrow> (xs = [] \<or> hd xs = x + 1) \<and> contiguous xs"
  by (cases xs) auto

lemma contiguous_append:
  "contiguous (xs @ ys) \<longleftrightarrow>
     contiguous xs \<and> contiguous ys \<and> (xs = [] \<or> ys = [] \<or> hd ys = last xs + 1)"
proof (induction xs)
  case Nil
  show ?case by simp
next
  case (Cons x xs)
  show ?case
  proof (cases xs)
    case Nil
    then show ?thesis by (auto simp: contiguous_Cons)
  next
    case (Cons y zs)
    with Cons.IH show ?thesis by auto
  qed
qed

lemma count_from_add:
  "count_from sq (j + k) = count_from sq j @ count_from (sq + of_nat j) k"
  by (induction j arbitrary: sq) (simp_all add: ac_simps)

lemma hd_count_from: "0 < k \<Longrightarrow> hd (count_from sq k) = sq"
  by (cases k) simp_all

lemma last_count_from: "last (count_from sq (Suc k)) = sq + of_nat k"
proof (induction k arbitrary: sq)
  case 0
  show ?case by simp
next
  case (Suc k)
  have "last (count_from sq (Suc (Suc k))) = last (count_from (sq + 1) (Suc k))" by simp
  also have "\<dots> = sq + 1 + of_nat k" by (rule Suc)
  finally show ?case by (simp add: add.assoc add.commute)
qed

lemma count_from_Nil [simp]: "count_from sq k = [] \<longleftrightarrow> k = 0"
  by (cases k) simp_all

lemma length_pages_from [simp]: "length (pages_from sq c chs) = length chs"
  by (induction chs arbitrary: sq c) simp_all

lemma sequence_pages_from:
  "map sequence (pages_from sq c chs) = count_from sq (length chs)"
  by (induction chs arbitrary: sq c) simp_all

lemma sequence_to_packets_from:
  "to_packets_from pending sq pages = Inr r \<Longrightarrow>
   map sequence pages = count_from sq (length pages)"
proof (induction pages arbitrary: pending sq r)
  case Nil
  show ?case by simp
next
  case (Cons page pages)
  then show ?case
    by (auto split: if_splits prod.splits sum.splits)
qed

lemma sequence_new_pages_of:
  assumes "new_pages_of comment (old0 # olds) = Inr news"
  shows "map sequence news = count_from (sequence old0) (length news)
         \<and> map sequence (old0 # olds) = count_from (sequence old0) (length (old0 # olds))"
proof -
  from assms obtain pkts where tp: "to_packets (old0 # olds) = Inr pkts"
    unfolding new_pages_of_def by (auto split: sum.splits)
  define fp where "fp = from_packets (pkts[0 := CHR 0x03 # ''vorbis'' @ comment]) (sequence old0)"
  define raw where "raw = map (\<lambda>page. page\<lparr>serial := serial old0\<rparr>) fp"
  from assms tp have ne: "raw \<noteq> []"
    and n: "news = butlast raw @ [(last raw)\<lparr>complete := complete (last (old0 # olds))\<rparr>]"
    unfolding new_pages_of_def raw_def fp_def Let_def
    by (auto split: if_splits)
  have "map sequence fp = count_from (sequence old0) (length fp)"
    unfolding fp_def from_packets_def from_packets_policy_def
    by (simp add: sequence_pages_from)
  then have r: "map sequence raw = count_from (sequence old0) (length raw)"
    by (simp add: raw_def comp_def)
  have ln: "length news = length raw" using ne unfolding n by simp
  have "map sequence news = map sequence (butlast raw @ [last raw])"
    unfolding n by simp
  also have "\<dots> = map sequence raw" using ne by simp
  finally have 1: "map sequence news = count_from (sequence old0) (length news)"
    unfolding ln r .
  from tp have "to_packets_from [] (sequence old0) (old0 # olds) = Inr pkts"
    by (simp add: to_packets_def)
  from sequence_to_packets_from [OF this] 1 show ?thesis by simp
qed

lemma filter_renumbered_other:
  "filter (\<lambda>q. serial q \<noteq> ser) (renumbered ser n w) = filter (\<lambda>q. serial q \<noteq> ser) w"
  by (induction w arbitrary: n) simp_all

lemma sequence_renumbered:
  "map sequence (filter (\<lambda>q. serial q = ser) (renumbered ser n w))
   = count_from n (length (filter (\<lambda>q. serial q = ser) w))"
  by (induction w arbitrary: n) simp_all

lemma sequence_filter_place:
  "map sequence (filter (\<lambda>q. serial q = ser) (place n xs))
   = map sequence (filter (\<lambda>q. serial q = ser) xs)"
  by (induction xs arbitrary: n) simp_all

lemma new_frames_numbers:
  assumes "new_pages_of comment
             (filter (\<lambda>q. serial q = serial h) (place n (h # u))) = Inr news"
  shows "news \<noteq> []" "\<forall>p\<in>set news. serial p = serial h"
    "map sequence news = count_from (sequence h) (length news)"
    "map sequence (filter (\<lambda>q. serial q = serial h) (h # u))
     = count_from (sequence h) (length (filter (\<lambda>q. serial q = serial h) (h # u)))"
    "sequence (last news) + 1 = sequence h + of_nat (length news)"
proof -
  let ?olds = "filter (\<lambda>q. serial q = serial h) (place n (h # u))"
  have olds: "?olds = h\<lparr>offset := Some n\<rparr>
                # filter (\<lambda>q. serial q = serial h) (place (n + page_size h) u)"
    by simp
  from new_pages_of_serial [OF assms [unfolded olds]]
  show ne: "news \<noteq> []" and "\<forall>p\<in>set news. serial p = serial h" by simp_all
  from sequence_new_pages_of [OF assms [unfolded olds]]
  have 1: "map sequence news = count_from (sequence h) (length news)"
    and 2: "map sequence ?olds = count_from (sequence h) (length ?olds)"
    unfolding olds by simp_all
  show "map sequence news = count_from (sequence h) (length news)" by (rule 1)
  show "map sequence (filter (\<lambda>q. serial q = serial h) (h # u))
     = count_from (sequence h) (length (filter (\<lambda>q. serial q = serial h) (h # u)))"
    using 2 unfolding sequence_filter_place length_filter_place .
  from ne obtain k where k: "length news = Suc k" by (cases news) auto
  have "sequence (last news) = last (map sequence news)" using ne by (simp add: last_map)
  also have "\<dots> = sequence h + of_nat k" unfolding 1 k by (rule last_count_from)
  finally show "sequence (last news) + 1 = sequence h + of_nat (length news)"
    unfolding k by simp
qed

lemma filter_same_other:
  "\<forall>p\<in>set xs. serial p = ser \<Longrightarrow> filter (\<lambda>q. serial q \<noteq> ser) xs = []"
  "\<forall>p\<in>set xs. serial p = ser \<Longrightarrow> filter (\<lambda>q. serial q = ser) xs = xs"
  by (induction xs) auto

lemma filter_filter_other:
  "filter (\<lambda>q. serial q = ser) (filter (\<lambda>q. serial q \<noteq> ser) xs) = []"
  "filter (\<lambda>q. serial q \<noteq> ser) (filter (\<lambda>q. serial q \<noteq> ser) xs)
   = filter (\<lambda>q. serial q \<noteq> ser) xs"
  by (induction xs) auto

lemma other_frames_kept:
  assumes "\<forall>p\<in>set news. serial p = serial h"
  shows "filter (\<lambda>q. serial q \<noteq> serial h) (after_inject a h u b news)
         = filter (\<lambda>q. serial q \<noteq> serial h) (a @ h # u @ b)"
  unfolding after_inject_def
  by (simp add: filter_same_other(1) [OF assms] filter_renumbered_other filter_filter_other)

lemma stream_numbers_changed:
  assumes "\<forall>p\<in>set news. serial p = serial h"
    and "map sequence news = count_from (sequence h) (length news)"
    and "sequence (last news) + 1 = sequence h + of_nat (length news)"
    and "length (filter (\<lambda>q. serial q = serial h) (h # u)) \<noteq> length news"
  shows "map sequence (filter (\<lambda>q. serial q = serial h) (after_inject a h u b news))
         = map sequence (filter (\<lambda>q. serial q = serial h) a)
           @ count_from (sequence h) (length news + length (filter (\<lambda>q. serial q = serial h) b))"
  unfolding after_inject_def
  using assms(4)
  by (simp add: filter_same_other(2) [OF assms(1)] sequence_renumbered filter_filter_other
        assms(2,3) count_from_add del: filter.simps)

lemma stream_numbers_unchanged:
  assumes "\<forall>p\<in>set news. serial p = serial h"
    and "map sequence news = count_from (sequence h) (length news)"
    and "map sequence (filter (\<lambda>q. serial q = serial h) (h # u))
         = count_from (sequence h) (length (filter (\<lambda>q. serial q = serial h) (h # u)))"
    and "length (filter (\<lambda>q. serial q = serial h) (h # u)) = length news"
  shows "map sequence (filter (\<lambda>q. serial q = serial h) (after_inject a h u b news))
         = map sequence (filter (\<lambda>q. serial q = serial h) (a @ h # u @ b))"
proof -
  have "map sequence (filter (\<lambda>q. serial q = serial h) (a @ h # u @ b))
        = map sequence (filter (\<lambda>q. serial q = serial h) a)
          @ map sequence (filter (\<lambda>q. serial q = serial h) (h # u))
          @ map sequence (filter (\<lambda>q. serial q = serial h) b)"
    by simp
  also have "\<dots> = map sequence (filter (\<lambda>q. serial q = serial h) a)
          @ map sequence news @ map sequence (filter (\<lambda>q. serial q = serial h) b)"
    unfolding assms(3) assms(4) assms(2) ..
  also have "\<dots> = map sequence (filter (\<lambda>q. serial q = serial h) (after_inject a h u b news))"
    unfolding after_inject_def using assms(4)
    by (simp add: filter_same_other(2) [OF assms(1)] filter_filter_other del: filter.simps)
  finally show ?thesis ..
qed

lemma contiguous_prefix_count:
  assumes "contiguous (xs @ count_from sq (Suc j) @ ys)" "0 < k"
  shows "contiguous (xs @ count_from sq k)"
proof -
  from assms(1) have "contiguous xs \<and> (xs = [] \<or> sq = last xs + 1)"
    by (simp add: contiguous_append)
  with assms(2) show ?thesis
    by (simp add: contiguous_append contiguous_count_from hd_count_from)
qed

lemma valid_split_examples:
  "valid_page comment_only_page" "valid_page setup_only_page" "valid_page late_audio_page"
  "valid_page gap_headers_page"
  by (simp_all add: comment_only_page_def setup_only_page_def late_audio_page_def
        gap_headers_page_def valid_mk_page packet_lacing_def comment_packet_def setup_packet_def)

lemma new_pages_of_split:
  "new_pages_of ''ABC''
     (filter (\<lambda>q. serial q = serial comment_only_page)
        (place n [comment_only_page, setup_only_page]))
   = Inr [headers_page]"
proof -
  have f: "filter (\<lambda>q. serial q = serial comment_only_page)
             (place n [comment_only_page, setup_only_page])
           = [comment_only_page\<lparr>offset := Some n\<rparr>,
              setup_only_page\<lparr>offset := Some (n + page_size comment_only_page)\<rparr>]"
    by (simp add: comment_only_page_def setup_only_page_def mk_page_def)
  have t: "to_packets [comment_only_page\<lparr>offset := Some n\<rparr>,
              setup_only_page\<lparr>offset := Some (n + page_size comment_only_page)\<rparr>]
           = Inr [comment_packet, setup_packet]"
    by (simp add: to_packets_def comment_only_page_def setup_only_page_def mk_page_def)
  have fp: "from_packets [CHR 0x03 # ''vorbis'' @ ''ABC'', setup_packet] 1
            = [\<lparr> version = 0, position = 0, serial = 0, sequence = 1, continued = False,
                 first = False, last_flag = False,
                 packets = [CHR 0x03 # ''vorbis'' @ ''ABC'', setup_packet], complete = True,
                 offset = None \<rparr>]"
    by (rule from_packets_one_frame) (simp add: setup_packet_def)
  show ?thesis
    unfolding f new_pages_of_def t
    using fp
    by (simp add: comment_only_page_def setup_only_page_def mk_page_def headers_page_def
          comment_packet_def)
qed

lemma new_pages_of_same:
  assumes "h = mk_page ser sq False False 0 [comment_packet, setup_packet]"
  shows "new_pages_of ''ABC'' (filter (\<lambda>q. serial q = serial h) (place n [h])) = Inr [h]"
proof -
  have c: "complete (h\<lparr>offset := Some n\<rparr>)"
    and p: "packets (h\<lparr>offset := Some n\<rparr>) = [comment_packet, setup_packet]"
    by (simp_all add: assms mk_page_def)
  have "new_pages_of ''ABC'' [h\<lparr>offset := Some n\<rparr>] = Inr [h]"
    unfolding new_pages_of_one_frame [OF c p, of "''ABC''", simplified setup_packet_def, simplified]
    by (simp add: assms mk_page_def comment_packet_def setup_packet_def)
  then show ?thesis by simp
qed

lemma lacing_table_complete:
  "complete h \<Longrightarrow> packets h = [p0, p1] \<Longrightarrow> lacing_table h = packet_lacing p0 @ packet_lacing p1"
  by (simp add: lacing_table_def)

lemma flags_of_write: "OggPage_write crc p ! 5 = char_of (flags_byte p)"
  by (simp add: OggPage_write_def header_bytes_def)

section \<open>Properties\<close>

text \<open>
  C6. The identification packet holds, from byte 16 on, the three unsigned 32-bit
  bitrate bounds max, nominal and min, little-endian. For every such triple the fields
  are read without error and the reported bitrate is: (max + min) div 2, without
  wrap-around, when nominal is 0; the smaller of max and nominal when nominal and max
  are not 0; the larger of min and nominal when nominal is not 0, max is 0 and min is
  not 0; and nominal otherwise. Four rows of the specification's table follow; its
  fifth row, (0, 0, 64000), has nominal 0 and so gives (0 + 64000) div 2 = 32000.
\<close>

theorem bitrate_tie_break:
  fixes mx nom mn :: "32 word"
  assumes "length pre = 16"
  shows "(\<exists>info. info_of_packet ser (pre @ le_bytes 4 (unat mx) @ le_bytes 4 (unat nom)
                     @ le_bytes 4 (unat mn) @ rest) = Inr info
           \<and> info_bitrate info =
               (if nom = 0 then (unat mx + unat mn) div 2
                else if mx \<noteq> 0 then min (unat mx) (unat nom)
                else if mn \<noteq> 0 then max (unat mn) (unat nom)
                else unat nom))
         \<and> bitrate_of 0 0 0 = 0
         \<and> bitrate_of 0 128000 0 = 128000
         \<and> bitrate_of 256000 0 64000 = 160000
         \<and> bitrate_of 256000 128000 64000 = 128000
         \<and> bitrate_of 0 0 64000 = 32000"
proof -
  have "\<exists>info. info_of_packet ser (pre @ le_bytes 4 (unat mx) @ le_bytes 4 (unat nom)
                     @ le_bytes 4 (unat mn) @ rest) = Inr info
           \<and> info_bitrate info =
               (if nom = 0 then (unat mx + unat mn) div 2
                else if mx \<noteq> 0 then min (unat mx) (unat nom)
                else if mn \<noteq> 0 then max (unat mn) (unat nom)
                else unat nom)"
    using assms
    by (simp add: info_of_packet_def uint_le_def le_nat_unat32 bitrate_of_def unat_eq_0
          del: le_bytes.simps)
  moreover have "bitrate_of 0 0 0 = 0" "bitrate_of 0 128000 0 = 128000"
    "bitrate_of 256000 0 64000 = 160000" "bitrate_of 256000 128000 64000 = 128000"
    "bitrate_of 0 0 64000 = 32000"
    by (simp_all add: bitrate_of_def)
  ultimately show ?thesis by blast
qed

theorem bitrate_tie_break_witness:
  "length (CHR 0x01 # ''vorbis'' @ le_bytes 4 0 @ [CHR 0x02] @ le_bytes 4 44100) = 16
   \<and> (\<exists>info. info_of_packet 7 ((CHR 0x01 # ''vorbis'' @ le_bytes 4 0 @ [CHR 0x02]
                   @ le_bytes 4 44100) @ le_bytes 4 (unat (0 :: 32 word))
                   @ le_bytes 4 (unat (128000 :: 32 word)) @ le_bytes 4 (unat (64000 :: 32 word))
                   @ [CHR 0x01]) = Inr info
         \<and> info_bitrate info = 128000)"
proof -
  have h: "length (CHR 0x01 # ''vorbis'' @ le_bytes 4 0 @ [CHR 0x02] @ le_bytes 4 44100) = 16"
    by simp
  show ?thesis
    using h bitrate_tie_break [OF h, of 7 0 128000 64000 "[CHR 0x01]"]
    by simp
qed

text \<open>
  The table row (0, 0, 64000) of C6 as the specification states it, with result 64000,
  does not hold: the nominal bitrate is 0, so the result is the mean of max and min.
\<close>

theorem bitrate_table_row_counterexample:
  "bitrate_of 0 0 64000 = 32000 \<and> bitrate_of 0 0 64000 \<noteq> 64000"
  by (simp add: bitrate_of_def)

text \<open>
  C10. The identification reader stops at a frame whose first packet starts with the
  identification marker. If that frame does not carry the is-first-of-stream flag, the
  reader fails with \<^verbatim>\<open>IOError\<close>, which the load path raises again as
  \<^verbatim>\<open>OggVorbisNoHeaderError\<close>, and no field is extracted. Whenever the reader returns
  stream information, its fields were extracted from the first packet of the frame the
  scan stopped at, and that frame carries the marker and the is-first-of-stream flag.
\<close>

theorem id_header_needs_first_flag:
  "(find_id_page crc fileobj = Inr (page, fileobj')
      \<longrightarrow> (\<exists>p0 ps. packets page = p0 # ps \<and> startswith p0 (CHR 0x01 # ''vorbis'')))
   \<and> (find_id_page crc fileobj = Inr (page, fileobj') \<and> \<not> first page
      \<longrightarrow> OggVorbisInfo_init crc fileobj = Inl IOError)
   \<and> (find_id_page crc \<lparr>data = d, pos = 0\<rparr> = Inr (page, fileobj') \<and> \<not> first page
      \<longrightarrow> load crc d = Some (Inl OggVorbisNoHeaderError))
   \<and> (OggVorbisInfo_init crc fileobj = Inr (info, fileobj'')
      \<longrightarrow> (\<exists>pg p0 ps. find_id_page crc fileobj = Inr (pg, fileobj'') \<and> first pg
             \<and> packets pg = p0 # ps \<and> startswith p0 (CHR 0x01 # ''vorbis'')
             \<and> info_of_packet (serial pg) p0 = Inr info))"
proof (intro conjI impI)
  assume "find_id_page crc fileobj = Inr (page, fileobj')"
  then show "\<exists>p0 ps. packets page = p0 # ps \<and> startswith p0 (CHR 0x01 # ''vorbis'')"
    by (rule find_id_page_marker)
next
  assume "find_id_page crc fileobj = Inr (page, fileobj') \<and> \<not> first page"
  then show "OggVorbisInfo_init crc fileobj = Inl IOError"
    by (simp add: OggVorbisInfo_init_def)
next
  assume "find_id_page crc \<lparr>data = d, pos = 0\<rparr> = Inr (page, fileobj') \<and> \<not> first page"
  then have "OggVorbisInfo_init crc \<lparr>data = d, pos = 0\<rparr> = Inl IOError"
    by (simp add: OggVorbisInfo_init_def)
  then show "load crc d = Some (Inl OggVorbisNoHeaderError)"
    by (simp add: load_def load_body_def)
next
  assume a: "OggVorbisInfo_init crc fileobj = Inr (info, fileobj'')"
  then obtain pg f where f: "find_id_page crc fileobj = Inr (pg, f)"
    by (auto simp: OggVorbisInfo_init_def split: sum.splits)
  from find_id_page_marker [OF f] obtain p0 ps where
    p: "packets pg = p0 # ps" "startswith p0 (CHR 0x01 # ''vorbis'')" by blast
  from a f p show "\<exists>pg p0 ps. find_id_page crc fileobj = Inr (pg, fileobj'') \<and> first pg
             \<and> packets pg = p0 # ps \<and> startswith p0 (CHR 0x01 # ''vorbis'')
             \<and> info_of_packet (serial pg) p0 = Inr info"
    by (auto simp: OggVorbisInfo_init_def split: sum.splits if_splits)
qed


theorem id_header_needs_first_flag_witness:
  "find_id_page bytesum \<lparr>data = bytes_of bytesum [foreign_page, late_id_page], pos = 0\<rparr>
     = Inr (late_id_page\<lparr>offset := Some (length (bytes_of bytesum [foreign_page]))\<rparr>,
            cursor_at bytesum [foreign_page, late_id_page] [])
   \<and> \<not> first (late_id_page\<lparr>offset := Some (length (bytes_of bytesum [foreign_page]))\<rparr>)
   \<and> OggVorbisInfo_init bytesum \<lparr>data = bytes_of bytesum [foreign_page, late_id_page], pos = 0\<rparr>
     = Inl IOError
   \<and> load bytesum (bytes_of bytesum [foreign_page, late_id_page])
     = Some (Inl OggVorbisNoHeaderError)
   \<and> OggVorbisInfo_init bytesum \<lparr>data = bytes_of bytesum [foreign_page, id_page], pos = 0\<rparr>
     = Inr (\<lparr>info_channels = 2, info_sample_rate = 44100, info_serial = 7,
              info_bitrate = 128000\<rparr>, cursor_at bytesum [foreign_page, id_page] [])"
proof -
  let ?late = "late_id_page\<lparr>offset := Some (length (bytes_of bytesum [foreign_page]))\<rparr>"
  have skip: "\<forall>q\<in>set [foreign_page]. valid_page q \<and> packets q \<noteq> []
                \<and> \<not> startswith (hd (packets q)) (CHR 0x01 # ''vorbis'')"
    by (simp add: valid_examples) (simp add: foreign_page_def startswith_def)
  have m: "packets late_id_page \<noteq> []"
    "startswith (hd (packets late_id_page)) (CHR 0x01 # ''vorbis'')"
    "packets id_page \<noteq> []"
    "startswith (hd (packets id_page)) (CHR 0x01 # ''vorbis'')"
    by (simp_all add: late_id_page_def id_page_def id_packet_marker)
  have f: "find_id_page bytesum \<lparr>data = bytes_of bytesum [foreign_page, late_id_page], pos = 0\<rparr>
           = Inr (?late, cursor_at bytesum [foreign_page, late_id_page] [])"
    using find_id_page_skips [OF skip valid_examples(2) m(1,2), of bytesum "[]" "[]"]
    by (simp only: cursor_at_start append_Nil append_Cons)
  have nf: "\<not> first ?late" by (simp add: late_id_page_def)
  have g: "find_id_page bytesum \<lparr>data = bytes_of bytesum [foreign_page, id_page], pos = 0\<rparr>
           = Inr (id_page\<lparr>offset := Some (length (bytes_of bytesum [foreign_page]))\<rparr>,
                  cursor_at bytesum [foreign_page, id_page] [])"
    using find_id_page_skips [OF skip valid_examples(3) m(3,4), of bytesum "[]" "[]"]
    by (simp only: cursor_at_start append_Nil append_Cons)
  have i: "OggVorbisInfo_init bytesum \<lparr>data = bytes_of bytesum [foreign_page, id_page], pos = 0\<rparr>
           = Inr (\<lparr>info_channels = 2, info_sample_rate = 44100, info_serial = 7,
                    info_bitrate = 128000\<rparr>, cursor_at bytesum [foreign_page, id_page] [])"
    unfolding OggVorbisInfo_init_def g by (simp add: id_page_def info_of_id_packet)
  note T = id_header_needs_first_flag [of bytesum
      "\<lparr>data = bytes_of bytesum [foreign_page, late_id_page], pos = 0\<rparr>" ?late
      "cursor_at bytesum [foreign_page, late_id_page] []"
      "bytes_of bytesum [foreign_page, late_id_page]"]
  from T have t2: "find_id_page bytesum
        \<lparr>data = bytes_of bytesum [foreign_page, late_id_page], pos = 0\<rparr>
        = Inr (?late, cursor_at bytesum [foreign_page, late_id_page] []) \<and> \<not> first ?late
      \<longrightarrow> OggVorbisInfo_init bytesum
            \<lparr>data = bytes_of bytesum [foreign_page, late_id_page], pos = 0\<rparr> = Inl IOError"
    by (rule conjunct1 [OF conjunct2])
  from T have t3: "find_id_page bytesum
        \<lparr>data = bytes_of bytesum [foreign_page, late_id_page], pos = 0\<rparr>
        = Inr (?late, cursor_at bytesum [foreign_page, late_id_page] []) \<and> \<not> first ?late
      \<longrightarrow> load bytesum (bytes_of bytesum [foreign_page, late_id_page])
            = Some (Inl OggVorbisNoHeaderError)"
    by (rule conjunct1 [OF conjunct2 [OF conjunct2]])
  from t2 f nf have c2: "OggVorbisInfo_init bytesum
      \<lparr>data = bytes_of bytesum [foreign_page, late_id_page], pos = 0\<rparr> = Inl IOError"
    by (rule mp [OF _ conjI])
  from t3 f nf have c3: "load bytesum (bytes_of bytesum [foreign_page, late_id_page])
      = Some (Inl OggVorbisNoHeaderError)"
    by (rule mp [OF _ conjI])
  from f nf c2 c3 i show ?thesis by (intro conjI)
qed

text \<open>
  C5, as the code has it: line 109 copies the attribute \<^verbatim>\<open>complete\<close> (the last packet of
  the frame is closed), not the is-last-of-stream flag. The final new frame has
  \<^verbatim>\<open>complete\<close> equal to that of the final old frame; no new frame has the
  is-first-of-stream or the is-last-of-stream flag; every new frame has the serial
  number of the first old frame.
\<close>

theorem new_frames_flags:
  assumes "new_pages_of comment old_pages = Inr new_pages"
  shows "new_pages \<noteq> []
         \<and> complete (last new_pages) = complete (last old_pages)
         \<and> (\<forall>p\<in>set new_pages. \<not> first p \<and> \<not> last_flag p
                               \<and> serial p = serial (hd old_pages))"
proof -
  from assms obtain pkts old0 rest where
    tp: "to_packets old_pages = Inr pkts" and len: "length pkts = 2"
    and old: "old_pages = old0 # rest"
    by (auto simp: new_pages_of_def split: sum.splits if_splits list.splits)
  define np where "np = map (\<lambda>page. page\<lparr>serial := serial old0\<rparr>)
                          (from_packets (pkts[0 := CHR 0x03 # ''vorbis'' @ comment]) (sequence old0))"
  from assms tp len old have ne: "np \<noteq> []"
    and new: "new_pages = butlast np @ [(last np)\<lparr>complete := complete (last old_pages)\<rparr>]"
    by (auto simp: new_pages_of_def np_def Let_def split: if_splits)
  have np: "\<not> first p \<and> \<not> last_flag p \<and> serial p = serial old0" if "p \<in> set np" for p
    using that from_packets_flags by (auto simp: np_def)
  have "\<not> first p \<and> \<not> last_flag p \<and> serial p = serial (hd old_pages)"
    if "p \<in> set new_pages" for p
  proof -
    from that new ne have "p \<in> set np \<or> p = (last np)\<lparr>complete := complete (last old_pages)\<rparr>"
      by (auto dest: in_set_butlastD)
    moreover have "last np \<in> set np" using ne by simp
    ultimately show ?thesis using np old by auto
  qed
  then show ?thesis using new by simp
qed

text \<open>
  C2. When the old frames reassemble to a number of packets other than 2, \<^verbatim>\<open>_inject\<close>
  fails (the \<^verbatim>\<open>assert\<close> of line 100) and the file content is unchanged. The same holds
  for every failure before the first write of line 115: a failed scan for the old frames
  and any failure while the new frames are built return the error with the file content
  as it was.
\<close>

theorem inject_fails_before_writing:
  "(find_old_pages crc d offs = Inr (old_pages, fileobj) \<and> to_packets old_pages = Inr pkts
      \<and> length pkts \<noteq> 2
      \<longrightarrow> inject crc comment d offs = (Inl AssertionError, d))
   \<and> (find_old_pages crc d offs = Inl e \<longrightarrow> inject crc comment d offs = (Inl e, d))
   \<and> (find_old_pages crc d offs = Inr (old_pages, fileobj)
      \<and> new_pages_of comment old_pages = Inl e
      \<longrightarrow> inject crc comment d offs = (Inl e, d))"
proof (intro conjI impI)
  assume "find_old_pages crc d offs = Inr (old_pages, fileobj) \<and> to_packets old_pages = Inr pkts
      \<and> length pkts \<noteq> 2"
  then have "find_old_pages crc d offs = Inr (old_pages, fileobj)"
    and "new_pages_of comment old_pages = Inl AssertionError"
    by (simp_all add: new_pages_of_def)
  then show "inject crc comment d offs = (Inl AssertionError, d)"
    by (simp add: inject_def)
next
  assume "find_old_pages crc d offs = Inl e"
  then show "inject crc comment d offs = (Inl e, d)" by (simp add: inject_def)
next
  assume "find_old_pages crc d offs = Inr (old_pages, fileobj)
      \<and> new_pages_of comment old_pages = Inl e"
  then show "inject crc comment d offs = (Inl e, d)" by (simp add: inject_def)
qed

theorem inject_fails_before_writing_witness:
  "find_old_pages bytesum (bytes_of bytesum [id_page, three_packet_page]) 0
     = Inr ([three_packet_page\<lparr>offset := Some (length (bytes_of bytesum [id_page]))\<rparr>],
            cursor_at bytesum [id_page, three_packet_page] [])
   \<and> to_packets [three_packet_page\<lparr>offset := Some (length (bytes_of bytesum [id_page]))\<rparr>]
     = Inr [comment_packet, ''junk'', setup_packet]
   \<and> length [comment_packet, ''junk'', setup_packet] \<noteq> 2
   \<and> inject bytesum ''NEW'' (bytes_of bytesum [id_page, three_packet_page]) 0
     = (Inl AssertionError, bytes_of bytesum [id_page, three_packet_page])"
proof -
  let ?old = "three_packet_page\<lparr>offset := Some (length (bytes_of bytesum [id_page]))\<rparr>"
  have f: "find_old_pages bytesum (bytes_of bytesum [id_page, three_packet_page]) 0
           = Inr ([?old], cursor_at bytesum [id_page, three_packet_page] [])"
    using find_old_pages_one_frame [OF id_page_no_comment valid_inject_examples(1),
        of bytesum "[]"]
    by (simp add: three_packet_page_def marker_examples)
  have t: "to_packets [?old] = Inr [comment_packet, ''junk'', setup_packet]"
    by (simp add: to_packets_single three_packet_page_def)
  have l: "length [comment_packet, ''junk'', setup_packet] \<noteq> 2" by simp
  from inject_fails_before_writing [of bytesum "bytes_of bytesum [id_page, three_packet_page]" 0
      "[?old]" "cursor_at bytesum [id_page, three_packet_page] []"
      "[comment_packet, ''junk'', setup_packet]" "''NEW''"]
  have "find_old_pages bytesum (bytes_of bytesum [id_page, three_packet_page]) 0
          = Inr ([?old], cursor_at bytesum [id_page, three_packet_page] [])
        \<and> to_packets [?old] = Inr [comment_packet, ''junk'', setup_packet]
        \<and> length [comment_packet, ''junk'', setup_packet] \<noteq> 2
      \<longrightarrow> inject bytesum ''NEW'' (bytes_of bytesum [id_page, three_packet_page]) 0
          = (Inl AssertionError, bytes_of bytesum [id_page, three_packet_page])"
    by (rule conjunct1)
  from this f t l have "inject bytesum ''NEW'' (bytes_of bytesum [id_page, three_packet_page]) 0
          = (Inl AssertionError, bytes_of bytesum [id_page, three_packet_page])"
    by (rule mp [OF _ conjI [OF _ conjI]])
  with f t l show ?thesis by (intro conjI)
qed

theorem new_frames_flags_witness:
  "new_pages_of ''NEW'' [last_headers_page\<lparr>offset := Some 57\<rparr>]
     = Inr [mk_page 7 1 False False 0 [CHR 0x03 # ''vorbisNEW'', setup_packet]]
   \<and> complete (mk_page 7 1 False False 0 [CHR 0x03 # ''vorbisNEW'', setup_packet])
     = complete (last_headers_page\<lparr>offset := Some 57\<rparr>)
   \<and> \<not> first (mk_page 7 1 False False 0 [CHR 0x03 # ''vorbisNEW'', setup_packet])
   \<and> \<not> last_flag (mk_page 7 1 False False 0 [CHR 0x03 # ''vorbisNEW'', setup_packet])"
proof -
  have n: "new_pages_of ''NEW'' [last_headers_page\<lparr>offset := Some 57\<rparr>]
           = Inr [mk_page 7 1 False False 0 [CHR 0x03 # ''vorbisNEW'', setup_packet]]"
    using new_pages_of_one_frame [of "last_headers_page\<lparr>offset := Some 57\<rparr>"
        comment_packet setup_packet "''NEW''"]
    by (simp add: last_headers_page_def setup_packet_def)
  from new_frames_flags [OF n] show ?thesis using n by simp
qed

text \<open>
  C5 as stated fails: the old frame found in this file carries the is-last-of-stream
  flag, and the new frame does not.
\<close>

theorem last_flag_not_copied_counterexample:
  "find_old_pages bytesum (bytes_of bytesum [id_page, last_headers_page]) 0
     = Inr ([last_headers_page\<lparr>offset := Some (length (bytes_of bytesum [id_page]))\<rparr>],
            cursor_at bytesum [id_page, last_headers_page] [])
   \<and> last_flag (last_headers_page\<lparr>offset := Some (length (bytes_of bytesum [id_page]))\<rparr>)
   \<and> new_pages_of ''ABC'' [last_headers_page\<lparr>offset := Some (length (bytes_of bytesum [id_page]))\<rparr>]
     = Inr [mk_page 7 1 False False 0 [comment_packet, setup_packet]]
   \<and> \<not> last_flag (mk_page 7 1 False False 0 [comment_packet, setup_packet])"
proof -
  have f: "find_old_pages bytesum (bytes_of bytesum [id_page, last_headers_page]) 0
     = Inr ([last_headers_page\<lparr>offset := Some (length (bytes_of bytesum [id_page]))\<rparr>],
            cursor_at bytesum [id_page, last_headers_page] [])"
    using find_old_pages_one_frame [OF id_page_no_comment valid_inject_examples(2),
        of bytesum "[]"]
    by (simp add: last_headers_page_def marker_examples)
  have n: "new_pages_of ''ABC''
             [last_headers_page\<lparr>offset := Some (length (bytes_of bytesum [id_page]))\<rparr>]
           = Inr [mk_page 7 1 False False 0 [comment_packet, setup_packet]]"
    using new_pages_of_one_frame
      [of "last_headers_page\<lparr>offset := Some (length (bytes_of bytesum [id_page]))\<rparr>"
        comment_packet setup_packet "''ABC''"]
    by (simp add: last_headers_page_def) (simp add: setup_packet_def comment_packet_def)
  show ?thesis using f n by (simp add: last_headers_page_def)
qed

text \<open>
  C4, as the code has it: line 106 calls \<^verbatim>\<open>from_packets\<close> with the packets and the
  sequence number only, so no frame break is forced. When the segments of the new
  comment packet and of the setup packet fit into one frame (at most 255 segments in
  all), the new frames are one single frame that holds both packets. Its \<^verbatim>\<open>complete\<close>
  attribute is that of the final old frame (line 109). When the final old frame is
  complete, or the length of the setup packet is not a multiple of 255, the segment
  table of the new frame is the segments of the comment packet followed by the segments
  of the setup packet, each packet closed by a segment of its own. When the final old
  frame is not complete and the length of the setup packet is a multiple of 255, the
  closing segment of length 0 is left out and the setup packet stays open.
\<close>

theorem new_frames_share_one_frame:
  assumes "new_pages_of comment old_pages = Inr new_pages"
    and "to_packets old_pages = Inr [p0, p1]"
    and "length (CHR 0x03 # ''vorbis'' @ comment) div 255 + length p1 div 255 + 2 \<le> 255"
  shows "\<exists>page. new_pages = [page] \<and> packets page = [CHR 0x03 # ''vorbis'' @ comment, p1]
           \<and> complete page = complete (last old_pages)
           \<and> (complete (last old_pages) \<longrightarrow>
                lacing_table page
                = packet_lacing (CHR 0x03 # ''vorbis'' @ comment) @ packet_lacing p1)
           \<and> (\<not> complete (last old_pages) \<and> length p1 mod 255 \<noteq> 0 \<longrightarrow>
                lacing_table page
                = packet_lacing (CHR 0x03 # ''vorbis'' @ comment) @ packet_lacing p1)
           \<and> (\<not> complete (last old_pages) \<and> length p1 mod 255 = 0 \<longrightarrow>
                lacing_table page
                = packet_lacing (CHR 0x03 # ''vorbis'' @ comment)
                  @ replicate (length p1 div 255) 255)"
proof (cases old_pages)
  case Nil
  with assms(2) show ?thesis by (simp add: to_packets_def)
next
  case (Cons old0 rest)
  define P where "P = mk_page 0 (sequence old0) False False 0 [CHR 0x03 # ''vorbis'' @ comment, p1]"
  define Q where "Q = P\<lparr>serial := serial old0, complete := complete (last old_pages)\<rparr>"
  have fp: "from_packets [CHR 0x03 # ''vorbis'' @ comment, p1] (sequence old0) = [P]"
    using from_packets_one_frame [OF assms(3), of "sequence old0"]
    by (simp add: P_def mk_page_def)
  have "new_pages_of comment old_pages = Inr [Q]"
    using fp unfolding new_pages_of_def assms(2) Q_def by (simp add: Cons)
  with assms(1) have n: "new_pages = [Q]" by simp
  have Q: "Q = (P\<lparr>serial := serial old0\<rparr>)
                 \<lparr>packets := [CHR 0x03 # ''vorbis'' @ comment, p1],
                  complete := complete (last old_pages)\<rparr>"
    by (simp add: Q_def P_def mk_page_def)
  have pk: "packets Q = [CHR 0x03 # ''vorbis'' @ comment, p1]"
    and c: "complete Q = complete (last old_pages)"
    by (simp_all add: Q_def P_def mk_page_def)
  have lt: "lacing_table Q
      = (if \<not> complete (last old_pages) \<and> length p1 mod 255 = 0
         then packet_lacing (CHR 0x03 # ''vorbis'' @ comment) @ replicate (length p1 div 255) 255
         else packet_lacing (CHR 0x03 # ''vorbis'' @ comment) @ packet_lacing p1)"
    unfolding Q by (rule lacing_table_two)
  show ?thesis
    using n pk c lt by (intro exI [of _ Q]) simp
qed


theorem new_frames_share_one_frame_witness:
  "new_pages_of ''A longer comment'' [headers_page\<lparr>offset := Some 57\<rparr>]
     = Inr [mk_page 7 1 False False 0 [CHR 0x03 # ''vorbisA longer comment'', setup_packet]]
   \<and> to_packets [headers_page\<lparr>offset := Some 57\<rparr>] = Inr [comment_packet, setup_packet]
   \<and> length (CHR 0x03 # ''vorbis'' @ ''A longer comment'') div 255
       + length setup_packet div 255 + 2 \<le> 255
   \<and> complete (last [headers_page\<lparr>offset := Some 57\<rparr>])
   \<and> lacing_table (mk_page 7 1 False False 0
                       [CHR 0x03 # ''vorbisA longer comment'', setup_packet]) = [23, 9]
   \<and> new_pages_of ''ABC'' [open_headers_page\<lparr>offset := Some 57\<rparr>]
     = Inr [(mk_page 7 1 False False 0 [comment_packet, full_setup_packet])
              \<lparr>complete := False\<rparr>]
   \<and> to_packets [open_headers_page\<lparr>offset := Some 57\<rparr>]
     = Inr [comment_packet, full_setup_packet]
   \<and> \<not> complete (last [open_headers_page\<lparr>offset := Some 57\<rparr>])
   \<and> length full_setup_packet mod 255 = 0
   \<and> lacing_table ((mk_page 7 1 False False 0 [comment_packet, full_setup_packet])
                       \<lparr>complete := False\<rparr>) = [10, 255]"
proof -
  let ?N1 = "mk_page 7 1 False False 0 [CHR 0x03 # ''vorbisA longer comment'', setup_packet]"
  let ?N2 = "(mk_page 7 1 False False 0 [comment_packet, full_setup_packet])
               \<lparr>complete := False\<rparr>"
  have l1: "length (CHR 0x03 # ''vorbis'' @ ''A longer comment'') div 255
       + length setup_packet div 255 + 2 \<le> 255"
    by (simp add: setup_packet_def)
  have n1: "new_pages_of ''A longer comment'' [headers_page\<lparr>offset := Some 57\<rparr>] = Inr [?N1]"
    using new_pages_of_one_frame [of "headers_page\<lparr>offset := Some 57\<rparr>"
        comment_packet setup_packet "''A longer comment''"] l1
    by (simp add: headers_page_def)
  have t1: "to_packets [headers_page\<lparr>offset := Some 57\<rparr>] = Inr [comment_packet, setup_packet]"
    by (simp add: to_packets_single headers_page_def)
  have c1: "complete (last [headers_page\<lparr>offset := Some 57\<rparr>])"
    by (simp add: headers_page_def)
  from new_frames_share_one_frame [OF n1 t1 l1] c1
  have "lacing_table ?N1
        = packet_lacing (CHR 0x03 # ''vorbis'' @ ''A longer comment'') @ packet_lacing setup_packet"
    by auto
  then have lt1: "lacing_table ?N1 = [23, 9]"
    by (simp add: packet_lacing_def setup_packet_def)
  have l2: "length (CHR 0x03 # ''vorbis'' @ ''ABC'') div 255
       + length full_setup_packet div 255 + 2 \<le> 255"
    by (simp add: length_full_setup_packet)
  have t2: "to_packets [open_headers_page\<lparr>offset := Some 57\<rparr>]
            = Inr [comment_packet, full_setup_packet]"
    by (simp add: to_packets_def open_headers_page_def)
  have fp2: "from_packets [CHR 0x03 # ''vorbis'' @ ''ABC'', full_setup_packet] 1
             = [mk_page 0 1 False False 0 [CHR 0x03 # ''vorbis'' @ ''ABC'', full_setup_packet]]"
    using from_packets_one_frame [OF l2, of 1] by (simp add: mk_page_def)
  have n2: "new_pages_of ''ABC'' [open_headers_page\<lparr>offset := Some 57\<rparr>] = Inr [?N2]"
    using fp2 unfolding new_pages_of_def t2
    by (simp add: open_headers_page_def comment_packet_def mk_page_def)
  have c2: "\<not> complete (last [open_headers_page\<lparr>offset := Some 57\<rparr>])"
    by (simp add: open_headers_page_def)
  have m2: "length full_setup_packet mod 255 = 0"
    by (simp add: length_full_setup_packet)
  from new_frames_share_one_frame [OF n2 t2 l2] c2 m2
  have "lacing_table ?N2
        = packet_lacing (CHR 0x03 # ''vorbis'' @ ''ABC'')
          @ replicate (length full_setup_packet div 255) 255"
    by auto
  then have lt2: "lacing_table ?N2 = [10, 255]"
    by (simp add: packet_lacing_def length_full_setup_packet)
  from n1 t1 l1 c1 lt1 n2 t2 c2 m2 lt2 show ?thesis by (intro conjI)
qed

text \<open>
  C4 as stated fails: the one new frame holds the bytes of both packets.
\<close>

theorem packets_share_frame_counterexample:
  "new_pages_of ''ABC'' [headers_page\<lparr>offset := Some 57\<rparr>]
     = Inr [mk_page 7 1 False False 0 [comment_packet, setup_packet]]
   \<and> packets (mk_page 7 1 False False 0 [comment_packet, setup_packet])
     = [CHR 0x03 # ''vorbisABC'', CHR 0x05 # ''vorbisXY'']"
proof -
  have "new_pages_of ''ABC'' [headers_page\<lparr>offset := Some 57\<rparr>]
     = Inr [mk_page 7 1 False False 0 [comment_packet, setup_packet]]"
    using new_pages_of_one_frame [of "headers_page\<lparr>offset := Some 57\<rparr>"
        comment_packet setup_packet "''ABC''"]
    by (simp add: headers_page_def) (simp add: setup_packet_def comment_packet_def)
  then show ?thesis by (simp add: comment_packet_def setup_packet_def)
qed

text \<open>
  C3 at a file of two Vorbis streams, with the frames: identification of stream 7,
  identification of stream 9, comment and setup of stream 9, comment and setup of
  stream 7. The load path identifies stream 7 and reads the comment of stream 7; the
  scan of \<^verbatim>\<open>_inject\<close> takes the comment frame of stream 9 as the start of the old
  frames, since its first loop (lines 87 to 89) does not look at the serial number.
\<close>

theorem inject_takes_foreign_comment_frame:
  "OggVorbisInfo_init bytesum \<lparr>data = bytes_of bytesum two_stream_frames, pos = 0\<rparr>
     = Inr (\<lparr>info_channels = 2, info_sample_rate = 44100, info_serial = 7,
              info_bitrate = 128000\<rparr>,
            cursor_at bytesum [id_page] [other_id_page, other_headers_page, headers_page])
   \<and> OggVCommentDict_init bytesum
        (cursor_at bytesum [id_page] [other_id_page, other_headers_page, headers_page])
        \<lparr>info_channels = 2, info_sample_rate = 44100, info_serial = 7, info_bitrate = 128000\<rparr>
     = Inr (''ABC'', cursor_at bytesum two_stream_frames [])
   \<and> find_old_pages bytesum (bytes_of bytesum two_stream_frames) 0
     = Inr ([other_headers_page
               \<lparr>offset := Some (length (bytes_of bytesum [id_page, other_id_page]))\<rparr>],
            cursor_at bytesum [id_page, other_id_page, other_headers_page] [headers_page])
   \<and> serial other_headers_page = 9
   \<and> packets other_headers_page = [CHR 0x03 # ''vorbisOTHER'', setup_packet]"
proof -
  let ?info = "\<lparr>info_channels = 2, info_sample_rate = 44100, info_serial = 7,
                 info_bitrate = 128000\<rparr>"
  have g: "find_id_page bytesum (cursor_at bytesum [] two_stream_frames)
           = Inr (id_page\<lparr>offset := Some (length (bytes_of bytesum []))\<rparr>,
                  cursor_at bytesum [id_page] [other_id_page, other_headers_page, headers_page])"
    unfolding two_stream_frames_def
    by (simp add: find_id_page_step valid_examples)
       (simp add: id_page_def id_packet_marker)
  have i: "OggVorbisInfo_init bytesum \<lparr>data = bytes_of bytesum two_stream_frames, pos = 0\<rparr>
           = Inr (?info, cursor_at bytesum [id_page]
                           [other_id_page, other_headers_page, headers_page])"
    unfolding OggVorbisInfo_init_def cursor_at_start g
    by (simp add: id_page_def info_of_id_packet)
  have r: "read_comment_pages bytesum 7 []
             (cursor_at bytesum [id_page] [other_id_page, other_headers_page, headers_page])
           = Inr ([headers_page\<lparr>offset := Some (length (bytes_of bytesum
                      [id_page, other_id_page, other_headers_page]))\<rparr>],
                  cursor_at bytesum two_stream_frames [])"
    by (simp add: read_comment_pages_step valid_inject_examples two_stream_frames_def)
       (simp add: other_id_page_def other_headers_page_def headers_page_def)
  have c: "OggVCommentDict_init bytesum
             (cursor_at bytesum [id_page] [other_id_page, other_headers_page, headers_page]) ?info
           = Inr (''ABC'', cursor_at bytesum two_stream_frames [])"
    unfolding OggVCommentDict_init_def
    by (simp add: r) (simp add: to_packets_single headers_page_def comment_packet_def)
  have p: "packets other_headers_page \<noteq> []"
    "startswith (hd (packets other_headers_page)) (CHR 0x03 # ''vorbis'')"
    "startswith (last (packets other_headers_page)) (CHR 0x05 # ''vorbis'')"
    by (simp_all add: other_headers_page_def marker_examples) (simp add: startswith_def)
  have f: "find_old_pages bytesum (bytes_of bytesum two_stream_frames) 0
     = Inr ([other_headers_page
               \<lparr>offset := Some (length (bytes_of bytesum [id_page, other_id_page]))\<rparr>],
            cursor_at bytesum [id_page, other_id_page, other_headers_page] [headers_page])"
    using find_old_pages_one_frame [OF no_comment_before_other_headers
        valid_inject_examples(4) p, of bytesum "[headers_page]"]
    by (simp only: two_stream_frames_def append_Cons append_Nil)
  show ?thesis using i c f by (simp add: other_headers_page_def)
qed



text \<open>
  Claim C7. The slow path does not compute the maximum position of the frames of the
  stream: on a file of three frames of serial 7 (the last one flagged last, at position
  88200) followed by a last frame of serial 9, the last frame of the file is of another
  serial, the slow path starts at the first frame, which is of the stream and not
  flagged last, and the loop of lines 177 to 181 reads no further frame: \<^verbatim>\<open>load\<close> does
  not return.
\<close>

theorem slow_path_never_returns:
  "load bytesum (bytes_of bytesum muxed_frames) = None
   \<and> map serial muxed_frames = [7, 7, 7, 9]
   \<and> map last_flag muxed_frames = [False, False, True, True]
   \<and> map position muxed_frames = [0, 0, 88200, 500]"
proof -
  let ?d = "bytes_of bytesum muxed_frames"
  let ?info = "\<lparr>info_channels = 2, info_sample_rate = 44100, info_serial = 7,
                 info_bitrate = 128000\<rparr>"
  have len: "length ?d < 256 * 256"
    by (simp add: muxed_frames_def length_bytes_of id_page_def headers_page_def audio_page_def
          foreign_last_page_def page_size_mk_page packet_lacing_def length_id_packet
          comment_packet_def setup_packet_def)
  then have t: "tail_data ?d = ?d" by (simp add: tail_data_def)
  have split: "?d = bytes_of bytesum [id_page, headers_page, audio_page]
                     @ OggPage_write bytesum foreign_last_page"
    by (simp add: muxed_frames_def bytes_of_simps)
  have r: "rindex ?d ''OggS''
           = Some (length (bytes_of bytesum [id_page, headers_page, audio_page]))"
    unfolding split by (rule rindex_append [OF _ rindex_foreign_last]) simp
  have lp: "OggPage_read bytesum
              \<lparr>data = drop (length (bytes_of bytesum [id_page, headers_page, audio_page])) ?d,
               pos = 0\<rparr>
            = Inr (foreign_last_page\<lparr>offset := Some 0\<rparr>, cursor_at bytesum [foreign_last_page] [])"
    unfolding split by (simp add: read_single valid_load_examples)
  have fst: "OggPage_read bytesum \<lparr>data = ?d, pos = 0\<rparr>
             = Inr (id_page\<lparr>offset := Some (length (bytes_of bytesum []))\<rparr>,
                    cursor_at bytesum [id_page] [headers_page, audio_page, foreign_last_page])"
    unfolding cursor_at_start muxed_frames_def
    by (simp add: OggPage_read_cursor valid_examples)
  have stuck: "slow_scan bytesum 7 (id_page\<lparr>offset := off\<rparr>) fileobj samples = None"
    for off fileobj samples
    by (rule slow_scan_stuck) (simp_all add: id_page_def)
  have ne: "serial foreign_last_page \<noteq> 7"
    by (simp add: foreign_last_page_def)
  have fs: "find_samples bytesum ?d ?info = None"
    unfolding find_samples_def t r
    by (simp add: lp fst stuck ne)
  have "load bytesum ?d = None"
    unfolding load_def load_body_def
    using info_of_frames [of "[headers_page, audio_page, foreign_last_page]"]
      tags_of_frames [of "[audio_page, foreign_last_page]"] fs
    by (simp add: muxed_frames_def)
  then show ?thesis
    by (simp add: muxed_frames_def id_page_def headers_page_def audio_page_def
          foreign_last_page_def)
qed







end
